theory Spec2Isabelle
  imports Main
begin

section \<open>Layout rectangles on a heap\<close>

text \<open>
  The source is JavaScript. Rectangles are objects that are passed by reference and
  mutated in place (\<^verbatim>\<open>rootBounds.x = rootBounds.left\<close>), so they live in an explicit
  store: a heap is a list of rectangles, a reference is an index into it, allocation
  appends. A reference beyond the end of the heap stands for \<^verbatim>\<open>null\<close>/\<^verbatim>\<open>undefined\<close>,
  whose property access raises a TypeError in JavaScript.

  Coordinates are JavaScript numbers. They are modelled as \<open>int\<close>, whole pixels, which
  leaves fractions, rounding, infinities and NaN out of the model. The fields \<^verbatim>\<open>x\<close> and \<^verbatim>\<open>y\<close> are absent from a rectangle until something
  assigns them, hence optional.
\<close>

record rect =
  r_left :: int
  r_top :: int
  r_width :: int
  r_height :: int
  r_x :: "int option"
  r_y :: "int option"

type_synonym heap = "rect list"

datatype error = TypeError | AssertionError

record entry =
  time :: int
  rootBounds :: nat
  boundingClientRect :: nat
  intersectionRect :: nat

definition alloc :: "rect \<Rightarrow> heap \<Rightarrow> nat \<times> heap" where
  "alloc r h = (length h, h @ [r])"

text \<open>
  Modelled from the spec: \<^verbatim>\<open>layoutRectLtwh\<close> is imported from \<^verbatim>\<open>./layout-rect\<close>, which
  is not among the sources. The spec's rectangle is \<open>{left, top, width, height, x, y}\<close>
  and its rectangle utilities are pure: the function returns a new rectangle with the
  four numbers given, \<open>x\<close> and \<open>y\<close> not yet set.
\<close>

definition layoutRectLtwh :: "int \<Rightarrow> int \<Rightarrow> int \<Rightarrow> int \<Rightarrow> heap \<Rightarrow> nat \<times> heap" where
  "layoutRectLtwh l t w ht h =
     alloc \<lparr>r_left = l, r_top = t, r_width = w, r_height = ht, r_x = None, r_y = None\<rparr> h"

text \<open>
  Modelled from the spec: \<^verbatim>\<open>moveLayoutRect\<close> is imported from \<^verbatim>\<open>./layout-rect\<close>, which
  is not among the sources. The spec's translation of a rectangle by \<open>(dx, dy)\<close> moves
  left and top and keeps width and height; the result is a new rectangle.
\<close>

definition moveLayoutRect :: "nat \<Rightarrow> int \<Rightarrow> int \<Rightarrow> heap \<Rightarrow> nat \<times> heap" where
  "moveLayoutRect r dx dy h =
     layoutRectLtwh (r_left (h ! r) + dx) (r_top (h ! r) + dy)
       (r_width (h ! r)) (r_height (h ! r)) h"

text \<open>
  Modelled from the spec: \<^verbatim>\<open>rectIntersection\<close> is imported from \<^verbatim>\<open>./layout-rect\<close>, which
  is not among the sources. The spec's intersection is the geometric intersection of
  the two rectangles, a new rectangle, and is absent when they do not overlap: when
  the larger of the left edges lies beyond the smaller of the right edges, or the same
  for top and bottom.
\<close>

definition rectIntersection :: "nat \<Rightarrow> nat \<Rightarrow> heap \<Rightarrow> nat option \<times> heap" where
  "rectIntersection r1 r2 h =
     (let x0 = max (r_left (h ! r1)) (r_left (h ! r2));
          x1 = min (r_left (h ! r1) + r_width (h ! r1)) (r_left (h ! r2) + r_width (h ! r2))
      in if x0 \<le> x1 then
           (let y0 = max (r_top (h ! r1)) (r_top (h ! r2));
                y1 = min (r_top (h ! r1) + r_height (h ! r1))
                         (r_top (h ! r2) + r_height (h ! r2))
            in if y0 \<le> y1 then
                 (case layoutRectLtwh x0 y0 (x1 - x0) (y1 - y0) h of
                    (p, h') \<Rightarrow> (Some p, h'))
               else (None, h))
         else (None, h))"

text \<open>\<^verbatim>\<open>r.x = r.left; r.y = r.top\<close> on the rectangle at reference \<open>p\<close>.\<close>

definition set_xy :: "nat \<Rightarrow> heap \<Rightarrow> heap" where
  "set_xy p h = h[p := (h ! p)\<lparr>r_x := Some (r_left (h ! p)), r_y := Some (r_top (h ! p))\<rparr>]"

section \<open>getIntersectionChangeEntry\<close>

text \<open>
  The function of the source, statement by statement. It returns the heap it leaves
  behind together with either the change entry or the error that ended it: a TypeError
  when an argument is not an object, the failed \<^verbatim>\<open>dev.assert\<close> otherwise. The translation
  offsets are \<^verbatim>\<open>-1 * rootBounds.x\<close> and \<^verbatim>\<open>-1 * rootBounds.y\<close>, read after the two
  assignments, so they are \<open>left\<close> and \<open>top\<close> negated.
\<close>

definition getIntersectionChangeEntry ::
    "int \<Rightarrow> nat \<Rightarrow> nat \<Rightarrow> heap \<Rightarrow> (error + entry) \<times> heap" where
  "getIntersectionChangeEntry measureTime root box h =
     (if length h \<le> root then (Inl TypeError, h)
      else
        let h1 = set_xy root h in
        if length h1 \<le> box then (Inl TypeError, h1)
        else
          case moveLayoutRect box (-1 * r_left (h1 ! root)) (-1 * r_top (h1 ! root)) h1 of
            (bcr, h2) \<Rightarrow>
              if \<not> (r_width (h2 ! bcr) \<ge> 0 \<and> r_height (h2 ! bcr) \<ge> 0)
              then (Inl AssertionError, h2)
              else
                let h3 = set_xy bcr h2 in
                case (case rectIntersection root box h3 of
                        (Some p, h') \<Rightarrow> (p, h')
                      | (None, h') \<Rightarrow> layoutRectLtwh 0 0 0 0 h') of
                  (ir, h4) \<Rightarrow>
                    (Inr \<lparr>time = measureTime, rootBounds = root,
                          boundingClientRect = bcr, intersectionRect = ir\<rparr>,
                     set_xy ir h4))"

section \<open>The IntersectionObserver class and its collaborators\<close>

text \<open>
  One record holds the fields of the class and, below them, the part of the
  environment its methods act on. A window reference is compared by identity
  (\<^verbatim>\<open>entry.win == source\<close>), so it is a number here; an origin is a string.

  Fields of the class: \<open>clientWindows\<close>, \<open>shouldSendIntersectionChanges\<close>, \<open>inViewport\<close>,
  \<open>pendingChanges\<close>, \<open>flushTimeout\<close> (0 when no timer is set, the timer's id otherwise)
  and \<open>unlistenViewportChanges\<close> (absent until assigned; the closure over the two
  unlisten functions is the pair of their subscription handles).

  The environment: a clock in milliseconds (\<open>now\<close>), the outstanding timers with their
  due times, the number of callbacks queued with \<^verbatim>\<open>getVsync().measure\<close>, the handlers
  subscribed to the viewport's scroll and changed observables, the log of unlisten
  calls, and the log of \<^verbatim>\<open>postMessageToWindows\<close> calls (\<open>outbox\<close>).
\<close>

type_synonym win = nat
type_synonym origin = string

record message =
  sentAt :: nat
  targets :: "(win \<times> origin) list"
  changes :: "entry list"

record observer =
  clientWindows :: "(win \<times> origin) list"
  shouldSendIntersectionChanges :: bool
  inViewport :: bool
  pendingChanges :: "entry list"
  flushTimeout :: nat
  unlistenViewportChanges :: "(nat \<times> nat) option"
  now :: nat
  timers :: "(nat \<times> nat) list"
  timerCount :: nat
  measureQueue :: nat
  scrollObservers :: "nat list"
  changedObservers :: "nat list"
  listenerCount :: nat
  unlistenCalls :: "nat list"
  outbox :: "message list"

text \<open>The state the constructor leaves behind, with the environment at rest.\<close>

definition constructor :: observer where
  "constructor =
     \<lparr>clientWindows = [], shouldSendIntersectionChanges = False, inViewport = False,
      pendingChanges = [], flushTimeout = 0, unlistenViewportChanges = None,
      now = 0, timers = [], timerCount = 0, measureQueue = 0,
      scrollObservers = [], changedObservers = [], listenerCount = 0,
      unlistenCalls = [], outbox = []\<rparr>"

text \<open>
  Modelled from the spec: \<^verbatim>\<open>postMessageToWindows\<close> is imported from \<^verbatim>\<open>./iframe-helper\<close>,
  which is not among the sources. The spec's broadcast sends the payload, tagged with
  the message name, to every endpoint it is given. One call is one entry of the
  outbox: the time of the call, the endpoints and the changes as they are at the call.
\<close>

definition postMessageToWindows :: "(win \<times> origin) list \<Rightarrow> entry list \<Rightarrow> observer \<Rightarrow> observer" where
  "postMessageToWindows ws cs s =
     s\<lparr>outbox := outbox s @ [\<lparr>sentAt = now s, targets = ws, changes = cs\<rparr>]\<rparr>"

text \<open>
  Modelled from the spec: \<^verbatim>\<open>timer.delay\<close> is imported from \<^verbatim>\<open>./timer\<close>, which is not
  among the sources. The spec's timer is \<open>delay(callback, milliseconds) -> handle\<close>:
  the callback becomes due after the delay. Handles are numbered from 1, as those of
  \<^verbatim>\<open>setTimeout\<close> are, so a handle is never the 0 that \<open>flushTimeout\<close> uses for "none".
\<close>

definition timer_delay :: "nat \<Rightarrow> observer \<Rightarrow> nat \<times> observer" where
  "timer_delay ms s =
     (Suc (timerCount s),
      s\<lparr>timerCount := Suc (timerCount s),
        timers := timers s @ [(Suc (timerCount s), now s + ms)]\<rparr>)"

text \<open>
  Modelled from the spec: \<^verbatim>\<open>onScroll\<close> belongs to the element's viewport, which is not
  among the sources. The spec's interface is \<open>onScroll(cb) -> unsubscribe\<close>:
  subscribing adds a handler and returns the function that removes it. Every handler
  subscribed here is \<^verbatim>\<open>this.fire\<close>, so a subscription is represented by its handle
  alone, a number that no other subscription has.
\<close>

definition viewport_onScroll :: "observer \<Rightarrow> nat \<times> observer" where
  "viewport_onScroll s =
     (listenerCount s,
      s\<lparr>listenerCount := Suc (listenerCount s),
        scrollObservers := scrollObservers s @ [listenerCount s]\<rparr>)"

text \<open>
  Modelled from the spec: \<^verbatim>\<open>onChanged\<close> belongs to the element's viewport, which is
  not among the sources. The spec's interface is \<open>onResize(cb) -> unsubscribe\<close>, for
  notifications that also fire on layout changes; it is modelled as \<open>onScroll\<close> is.
\<close>

definition viewport_onChanged :: "observer \<Rightarrow> nat \<times> observer" where
  "viewport_onChanged s =
     (listenerCount s,
      s\<lparr>listenerCount := Suc (listenerCount s),
        changedObservers := changedObservers s @ [listenerCount s]\<rparr>)"

text \<open>
  Modelled from the spec: the function that \<^verbatim>\<open>onScroll\<close> returned with handle \<open>k\<close>.
  Calling it removes that handler; the call is logged.
\<close>

definition unlistenScroll :: "nat \<Rightarrow> observer \<Rightarrow> observer" where
  "unlistenScroll k s =
     s\<lparr>scrollObservers := removeAll k (scrollObservers s),
       unlistenCalls := unlistenCalls s @ [k]\<rparr>"

text \<open>
  Modelled from the spec: the function that \<^verbatim>\<open>onChanged\<close> returned with handle \<open>k\<close>.
  Calling it removes that handler; the call is logged.
\<close>

definition unlistenChanged :: "nat \<Rightarrow> observer \<Rightarrow> observer" where
  "unlistenChanged k s =
     s\<lparr>changedObservers := removeAll k (changedObservers s),
       unlistenCalls := unlistenCalls s @ [k]\<rparr>"

subsection \<open>The methods\<close>

text \<open>
  The private methods \<^verbatim>\<open>flush_\<close>, \<^verbatim>\<open>sendElementIntersection_\<close> and
  \<^verbatim>\<open>startSendingIntersectionChanges_\<close> are written without the trailing underscore,
  which a name cannot end with here.
\<close>

definition flush :: "observer \<Rightarrow> observer" where
  "flush s =
     (let s1 = s\<lparr>flushTimeout := 0\<rparr> in
      if length (pendingChanges s1) = 0 then s1
      else (postMessageToWindows (clientWindows s1) (pendingChanges s1) s1)
             \<lparr>pendingChanges := []\<rparr>)"

text \<open>
  \<^verbatim>\<open>this.baseElement_.element.getIntersectionChangeEntry()\<close> is a call into the element,
  which is not among the sources; the entry it returns is the argument \<open>change\<close>. It is
  only looked at when the call is reached. A call that raises instead of returning is
  not modelled: the events below are those in which the element returns an entry.
\<close>

definition sendElementIntersection :: "entry \<Rightarrow> observer \<Rightarrow> observer" where
  "sendElementIntersection change s =
     (if \<not> shouldSendIntersectionChanges s then s
      else if length (pendingChanges s) > 0 \<and>
              time (pendingChanges s ! (length (pendingChanges s) - 1)) = time change
      then s
      else
        let s1 = s\<lparr>pendingChanges := pendingChanges s @ [change]\<rparr> in
        if flushTimeout s1 = 0 then
          (case timer_delay 100 (flush s1) of
             (k, s2) \<Rightarrow> s2\<lparr>flushTimeout := k\<rparr>)
        else s1)"

text \<open>
  \<^verbatim>\<open>fire\<close> is inherited from Observable and calls the handlers added with \<^verbatim>\<open>add\<close>;
  \<^verbatim>\<open>init_\<close> adds the one handler that calls \<^verbatim>\<open>sendElementIntersection_\<close>.
\<close>

definition fire :: "entry \<Rightarrow> observer \<Rightarrow> observer" where
  "fire change s = sendElementIntersection change s"

definition onViewportCallback :: "bool \<Rightarrow> entry \<Rightarrow> observer \<Rightarrow> observer" where
  "onViewportCallback inVp change s =
     (if inViewport s = inVp then s
      else
        let s1 = fire change (s\<lparr>inViewport := inVp\<rparr>) in
        if inVp then
          (case viewport_onScroll s1 of
             (unlistenS, s2) \<Rightarrow>
               (case viewport_onChanged s2 of
                  (unlistenC, s3) \<Rightarrow>
                    s3\<lparr>unlistenViewportChanges := Some (unlistenS, unlistenC)\<rparr>))
        else
          (case unlistenViewportChanges s1 of
             Some (unlistenS, unlistenC) \<Rightarrow>
               (unlistenChanged unlistenC (unlistenScroll unlistenS s1))
                 \<lparr>unlistenViewportChanges := None\<rparr>
           | None \<Rightarrow> s1))"

text \<open>
  \<^verbatim>\<open>startSendingIntersectionChanges_\<close> sets the flag and queues its callback with
  \<^verbatim>\<open>getVsync().measure\<close>; \<open>measureCallback\<close> is that callback, run later by the
  environment with the value \<^verbatim>\<open>isInViewport()\<close> has then. Its two calls of \<^verbatim>\<open>fire\<close>
  obtain \<open>change1\<close> and \<open>change2\<close>.
\<close>

definition startSendingIntersectionChanges :: "observer \<Rightarrow> observer" where
  "startSendingIntersectionChanges s =
     s\<lparr>shouldSendIntersectionChanges := True, measureQueue := Suc (measureQueue s)\<rparr>"

definition measureCallback :: "bool \<Rightarrow> entry \<Rightarrow> entry \<Rightarrow> observer \<Rightarrow> observer" where
  "measureCallback isInViewport change1 change2 s =
     fire change2 (if isInViewport then onViewportCallback True change1 s else s)"

text \<open>
  The listener that \<^verbatim>\<open>init_\<close> registers for the \<^verbatim>\<open>send-intersections\<close> message, called
  with the window the message came from and its origin.
\<close>

definition onSendIntersections :: "win \<Rightarrow> origin \<Rightarrow> observer \<Rightarrow> observer" where
  "onSendIntersections source origin s =
     startSendingIntersectionChanges
       (if \<not> list_ex (\<lambda>entry. fst entry = source) (clientWindows s)
        then s\<lparr>clientWindows := clientWindows s @ [(source, origin)]\<rparr>
        else s)"

subsection \<open>Events\<close>

text \<open>
  What can happen to an observer: the handshake message arrives; a queued measure
  callback runs; the element reports entering or leaving the viewport; someone calls
  the public \<^verbatim>\<open>fire\<close>; the viewport notifies its scroll or changed handlers; a timer
  that is due fires; time passes. An event that cannot happen in the current state (no
  callback queued, no such timer, timer not yet due) leaves the state as it is. The
  entries an event carries are what the element returns for the calls made during it.
\<close>

datatype event =
    Message win origin
  | VsyncMeasure bool entry entry
  | ViewportCallback bool entry
  | Fire entry
  | Scroll entry
  | Changed entry
  | Timeout nat
  | Tick nat

fun step :: "event \<Rightarrow> observer \<Rightarrow> observer" where
  "step (Message source origin) s = onSendIntersections source origin s"
| "step (VsyncMeasure v c1 c2) s =
     (if measureQueue s = 0 then s
      else measureCallback v c1 c2 (s\<lparr>measureQueue := measureQueue s - 1\<rparr>))"
| "step (ViewportCallback v c) s = onViewportCallback v c s"
| "step (Fire c) s = fire c s"
| "step (Scroll c) s = fold (\<lambda>_. fire c) (scrollObservers s) s"
| "step (Changed c) s = fold (\<lambda>_. fire c) (changedObservers s) s"
| "step (Timeout k) s =
     (if list_ex (\<lambda>t. fst t = k \<and> snd t \<le> now s) (timers s)
      then flush (s\<lparr>timers := filter (\<lambda>t. fst t \<noteq> k) (timers s)\<rparr>)
      else s)"
| "step (Tick d) s = s\<lparr>now := now s + d\<rparr>"

definition run :: "event list \<Rightarrow> observer \<Rightarrow> observer" where
  "run evs s = fold step evs s"

section \<open>Notions used in the statements\<close>

text \<open>
  The points a rectangle covers, borders included; a rectangle whose \<open>x\<close> and \<open>y\<close> have
  been set; two rectangles that share a point; the rectangle of the shared points, or
  the zero rectangle when there is none.
\<close>

definition inside :: "rect \<Rightarrow> int \<Rightarrow> int \<Rightarrow> bool" where
  "inside r px py \<longleftrightarrow>
     r_left r \<le> px \<and> px \<le> r_left r + r_width r \<and>
     r_top r \<le> py \<and> py \<le> r_top r + r_height r"

definition with_xy :: "rect \<Rightarrow> rect" where
  "with_xy r = r\<lparr>r_x := Some (r_left r), r_y := Some (r_top r)\<rparr>"

definition ltwh :: "int \<Rightarrow> int \<Rightarrow> int \<Rightarrow> int \<Rightarrow> rect" where
  "ltwh l t w ht =
     \<lparr>r_left = l, r_top = t, r_width = w, r_height = ht, r_x = Some l, r_y = Some t\<rparr>"

definition overlapping :: "rect \<Rightarrow> rect \<Rightarrow> bool" where
  "overlapping a b \<longleftrightarrow>
     max (r_left a) (r_left b) \<le> min (r_left a + r_width a) (r_left b + r_width b) \<and>
     max (r_top a) (r_top b) \<le> min (r_top a + r_height a) (r_top b + r_height b)"

definition meet :: "rect \<Rightarrow> rect \<Rightarrow> rect" where
  "meet a b =
     (if overlapping a b then
        ltwh (max (r_left a) (r_left b)) (max (r_top a) (r_top b))
          (min (r_left a + r_width a) (r_left b + r_width b) - max (r_left a) (r_left b))
          (min (r_top a + r_height a) (r_top b + r_height b) - max (r_top a) (r_top b))
      else ltwh 0 0 0 0)"

text \<open>
  What a list of events holds: the entries of its \<open>Fire\<close> events, the time its \<open>Tick\<close>
  events add up to, and, for one event, the entries the element returns during it.
\<close>

fun fired :: "event list \<Rightarrow> entry list" where
  "fired [] = []"
| "fired (Fire c # evs) = c # fired evs"
| "fired (_ # evs) = fired evs"

fun elapsed :: "event list \<Rightarrow> nat" where
  "elapsed [] = 0"
| "elapsed (Tick d # evs) = d + elapsed evs"
| "elapsed (_ # evs) = elapsed evs"

fun fire_or_tick :: "event \<Rightarrow> bool" where
  "fire_or_tick (Fire _) = True"
| "fire_or_tick (Tick _) = True"
| "fire_or_tick _ = False"

fun carried :: "event \<Rightarrow> entry list" where
  "carried (VsyncMeasure _ c1 c2) = [c1, c2]"
| "carried (ViewportCallback _ c) = [c]"
| "carried (Fire c) = [c]"
| "carried (Scroll c) = [c]"
| "carried (Changed c) = [c]"
| "carried _ = []"

text \<open>
  A list of entries without those whose time repeats the time of the entry before.
\<close>

fun dropRepeatedTimes :: "entry list \<Rightarrow> entry list" where
  "dropRepeatedTimes (c # d # cs) =
     (if time d = time c then dropRepeatedTimes (c # cs) else c # dropRepeatedTimes (d # cs))"
| "dropRepeatedTimes cs = cs"

text \<open>
  The bookkeeping of the viewport subscriptions: the class holds the two unlisten
  handles exactly while it is in the viewport, they are then the only subscribed
  handlers, and no handle that has been released is released again or still subscribed.
\<close>

definition subscriptions_ok :: "observer \<Rightarrow> bool" where
  "subscriptions_ok s \<longleftrightarrow>
     (case unlistenViewportChanges s of
        None \<Rightarrow> \<not> inViewport s \<and> scrollObservers s = [] \<and> changedObservers s = []
      | Some (a, b) \<Rightarrow>
          inViewport s \<and> scrollObservers s = [a] \<and> changedObservers s = [b] \<and> a \<noteq> b \<and>
          a < listenerCount s \<and> b < listenerCount s \<and>
          a \<notin> set (unlistenCalls s) \<and> b \<notin> set (unlistenCalls s)) \<and>
     distinct (unlistenCalls s) \<and> (\<forall>k\<in>set (unlistenCalls s). k < listenerCount s)"

text \<open>
  The queue holds entries of strictly increasing time, none later than \<open>t\<close>.
\<close>

definition queue_increasing_upto :: "observer \<Rightarrow> int \<Rightarrow> bool" where
  "queue_increasing_upto s t \<longleftrightarrow>
     sorted_wrt (<) (map time (pendingChanges s)) \<and> (\<forall>p\<in>set (pendingChanges s). time p \<le> t)"

text \<open>
  The bookkeeping of the timer: with \<open>flushTimeout\<close> 0 the queue is empty and no timer
  is outstanding; otherwise exactly the timer \<open>flushTimeout\<close> names is outstanding.
\<close>

definition timer_ok :: "observer \<Rightarrow> bool" where
  "timer_ok s \<longleftrightarrow>
     (if flushTimeout s = 0 then pendingChanges s = [] \<and> timers s = []
      else map fst (timers s) = [flushTimeout s])"

text \<open>Concrete inputs for the examples.\<close>

definition example_heap :: heap where
  "example_heap =
     [\<lparr>r_left = 0, r_top = 10, r_width = 100, r_height = 100, r_x = None, r_y = None\<rparr>,
      \<lparr>r_left = 50, r_top = 60, r_width = 100, r_height = 100, r_x = None, r_y = None\<rparr>,
      \<lparr>r_left = 500, r_top = 60, r_width = 10, r_height = 10, r_x = None, r_y = None\<rparr>,
      \<lparr>r_left = 5, r_top = 6, r_width = 10, r_height = -1, r_x = None, r_y = None\<rparr>]"

definition entry_at :: "int \<Rightarrow> entry" where
  "entry_at t = \<lparr>time = t, rootBounds = 0, boundingClientRect = 1, intersectionRect = 2\<rparr>"

definition other_entry_at :: "int \<Rightarrow> entry" where
  "other_entry_at t = \<lparr>time = t, rootBounds = 0, boundingClientRect = 3, intersectionRect = 4\<rparr>"

section \<open>Properties of getIntersectionChangeEntry\<close>

lemma set_xy_nth: "p < length h \<Longrightarrow> set_xy p h ! q = (if q = p then with_xy (h ! p) else h ! q)"
  by (simp add: set_xy_def with_xy_def)

lemma set_xy_length: "length (set_xy p h) = length h"
  by (simp add: set_xy_def)

lemma set_xy_last: "length h = n \<Longrightarrow> set_xy n (h @ [r]) = h @ [with_xy r]"
  by (auto simp add: set_xy_def with_xy_def)

lemma set_xy_last2: "length h = n \<Longrightarrow> set_xy (Suc n) (h @ [a, r]) = h @ [a, with_xy r]"
  by (auto simp add: set_xy_def with_xy_def nth_append list_update_append)

lemma geom_with_xy:
  "r_left (with_xy r) = r_left r" "r_top (with_xy r) = r_top r"
  "r_width (with_xy r) = r_width r" "r_height (with_xy r) = r_height r"
  by (simp_all add: with_xy_def)

lemma rectIntersection_eq:
  "rectIntersection r1 r2 h =
     (if overlapping (h ! r1) (h ! r2) then
        (Some (length h),
         h @ [\<lparr>r_left = max (r_left (h ! r1)) (r_left (h ! r2)),
               r_top = max (r_top (h ! r1)) (r_top (h ! r2)),
               r_width = min (r_left (h ! r1) + r_width (h ! r1)) (r_left (h ! r2) + r_width (h ! r2))
                         - max (r_left (h ! r1)) (r_left (h ! r2)),
               r_height = min (r_top (h ! r1) + r_height (h ! r1)) (r_top (h ! r2) + r_height (h ! r2))
                         - max (r_top (h ! r1)) (r_top (h ! r2)),
               r_x = None, r_y = None\<rparr>])
      else (None, h))"
  by (simp add: rectIntersection_def overlapping_def layoutRectLtwh_def alloc_def Let_def)

lemma overlapping_with_xy:
  "overlapping (with_xy a) b = overlapping a b" "overlapping a (with_xy b) = overlapping a b"
  by (simp_all add: overlapping_def geom_with_xy)

lemma gice_null_root:
  "length h \<le> root \<Longrightarrow> getIntersectionChangeEntry t root box h = (Inl TypeError, h)"
  by (simp add: getIntersectionChangeEntry_def)

lemma gice_null_box:
  "root < length h \<Longrightarrow> length h \<le> box \<Longrightarrow>
     getIntersectionChangeEntry t root box h = (Inl TypeError, set_xy root h)"
  by (simp add: getIntersectionChangeEntry_def Let_def set_xy_length)

lemma moved:
  assumes "root < length h" "box < length h"
  shows "moveLayoutRect box (-1 * r_left (set_xy root h ! root)) (-1 * r_top (set_xy root h ! root))
           (set_xy root h)
         = (length h, set_xy root h @
              [\<lparr>r_left = r_left (h ! box) - r_left (h ! root),
                r_top = r_top (h ! box) - r_top (h ! root),
                r_width = r_width (h ! box), r_height = r_height (h ! box),
                r_x = None, r_y = None\<rparr>])"
  using assms
  by (simp add: moveLayoutRect_def layoutRectLtwh_def alloc_def set_xy_length set_xy_nth geom_with_xy)

lemma gice_assert:
  assumes "root < length h" "box < length h"
    and "\<not> (0 \<le> r_width (h ! box) \<and> 0 \<le> r_height (h ! box))"
  shows "getIntersectionChangeEntry t root box h =
     (Inl AssertionError,
      set_xy root h @
        [\<lparr>r_left = r_left (h ! box) - r_left (h ! root),
          r_top = r_top (h ! box) - r_top (h ! root),
          r_width = r_width (h ! box), r_height = r_height (h ! box),
          r_x = None, r_y = None\<rparr>])"
proof -
  let ?h1 = "set_xy root h"
  have l1: "length ?h1 = length h" by (rule set_xy_length)
  let ?b = "\<lparr>r_left = r_left (h ! box) - r_left (h ! root), r_top = r_top (h ! box) - r_top (h ! root),
             r_width = r_width (h ! box), r_height = r_height (h ! box), r_x = None, r_y = None\<rparr>"
  have nb: "(?h1 @ [?b]) ! length h = ?b"
    using nth_append_length [of ?h1 ?b] by (simp only: l1)
  show ?thesis
    unfolding getIntersectionChangeEntry_def Let_def moved [OF assms(1,2)]
    using assms by (simp add: l1 nb)
qed

lemma gice_ok:
  assumes "root < length h" "box < length h"
    and "0 \<le> r_width (h ! box)" "0 \<le> r_height (h ! box)"
  shows "getIntersectionChangeEntry t root box h =
     (Inr \<lparr>time = t, rootBounds = root, boundingClientRect = length h,
           intersectionRect = Suc (length h)\<rparr>,
      set_xy root h @
        [ltwh (r_left (h ! box) - r_left (h ! root)) (r_top (h ! box) - r_top (h ! root))
           (r_width (h ! box)) (r_height (h ! box)),
         meet (h ! root) (h ! box)])"
proof -
  let ?h1 = "set_xy root h"
  have l1: "length ?h1 = length h" by (rule set_xy_length)
  let ?b = "\<lparr>r_left = r_left (h ! box) - r_left (h ! root), r_top = r_top (h ! box) - r_top (h ! root),
             r_width = r_width (h ! box), r_height = r_height (h ! box), r_x = None, r_y = None\<rparr>"
  let ?h3 = "?h1 @ [with_xy ?b]"
  have h3: "set_xy (length h) (?h1 @ [?b]) = ?h3"
    using set_xy_last [OF l1, of ?b] by simp
  have ov: "overlapping (?h3 ! root) (?h3 ! box) = overlapping (h ! root) (h ! box)"
    using assms(1,2) by (simp add: nth_append l1 set_xy_nth overlapping_with_xy)
  have g3: "r_left (?h3 ! root) = r_left (h ! root)" "r_top (?h3 ! root) = r_top (h ! root)"
    "r_width (?h3 ! root) = r_width (h ! root)" "r_height (?h3 ! root) = r_height (h ! root)"
    "r_left (?h3 ! box) = r_left (h ! box)" "r_top (?h3 ! box) = r_top (h ! box)"
    "r_width (?h3 ! box) = r_width (h ! box)" "r_height (?h3 ! box) = r_height (h ! box)"
    using assms(1,2) by (simp_all add: nth_append l1 set_xy_nth geom_with_xy)
  have wb: "with_xy ?b = ltwh (r_left (h ! box) - r_left (h ! root)) (r_top (h ! box) - r_top (h ! root))
           (r_width (h ! box)) (r_height (h ! box))"
    by (simp add: with_xy_def ltwh_def)
  have l3: "length ?h3 = Suc (length h)" by (simp add: l1)
  have fin: "(case (case rectIntersection root box ?h3 of
                        (Some p, h') \<Rightarrow> (p, h')
                      | (None, h') \<Rightarrow> layoutRectLtwh 0 0 0 0 h') of
               (ir, h4) \<Rightarrow> (Inr \<lparr>time = t, rootBounds = root,
                          boundingClientRect = length h, intersectionRect = ir\<rparr>,
                     set_xy ir h4))
             = (Inr \<lparr>time = t, rootBounds = root, boundingClientRect = length h,
                   intersectionRect = Suc (length h)\<rparr>, ?h3 @ [meet (h ! root) (h ! box)])"
  proof (cases "overlapping (h ! root) (h ! box)")
    case True
    show ?thesis
      unfolding rectIntersection_eq ov g3 using True l3
      by (simp add: meet_def ltwh_def set_xy_last2 [OF l1] with_xy_def layoutRectLtwh_def alloc_def)
  next
    case False
    show ?thesis
      unfolding rectIntersection_eq ov g3 using False l3
      by (simp add: meet_def ltwh_def layoutRectLtwh_def alloc_def
            set_xy_last2 [OF l1] with_xy_def)
  qed
  have nb: "(?h1 @ [?b]) ! length h = ?b"
    using nth_append_length [of ?h1 ?b] by (simp only: l1)
  show ?thesis
    unfolding getIntersectionChangeEntry_def Let_def moved [OF assms(1,2)]
    using assms fin by (simp add: l1 h3 wb nb)
qed

lemma gice_Inr_D:
  assumes "getIntersectionChangeEntry t root box h = (Inr e, h')"
  shows "root < length h \<and> box < length h \<and> 0 \<le> r_width (h ! box) \<and> 0 \<le> r_height (h ! box)"
proof -
  have 1: "root < length h"
    using assms gice_null_root [of h root t box] by (cases "root < length h") simp_all
  have 2: "box < length h"
    using assms 1 gice_null_box [of root h box t] by (cases "box < length h") simp_all
  have 3: "0 \<le> r_width (h ! box) \<and> 0 \<le> r_height (h ! box)"
    using assms gice_assert [OF 1 2, of t]
    by (cases "0 \<le> r_width (h ! box) \<and> 0 \<le> r_height (h ! box)") simp_all
  show ?thesis using 1 2 3 by simp
qed

lemma overlapping_iff:
  "overlapping a b \<longleftrightarrow> (\<exists>px py. inside a px py \<and> inside b px py)"
proof
  assume o: "overlapping a b"
  have "inside a (max (r_left a) (r_left b)) (max (r_top a) (r_top b)) \<and>
        inside b (max (r_left a) (r_left b)) (max (r_top a) (r_top b))"
    using o unfolding overlapping_def inside_def by linarith
  then show "\<exists>px py. inside a px py \<and> inside b px py" by blast
next
  assume "\<exists>px py. inside a px py \<and> inside b px py"
  then obtain px py where "inside a px py" "inside b px py" by blast
  then show "overlapping a b"
    unfolding overlapping_def inside_def by linarith
qed

lemma inside_meet:
  "overlapping a b \<Longrightarrow> inside (meet a b) px py \<longleftrightarrow> inside a px py \<and> inside b px py"
  unfolding meet_def overlapping_def inside_def ltwh_def by auto

lemma meet_nonneg: "0 \<le> r_width (meet a b) \<and> 0 \<le> r_height (meet a b)"
  unfolding meet_def overlapping_def ltwh_def by simp

text \<open>
  C7. Whenever getIntersectionChangeEntry returns a change entry, the rectangle its
  \<open>intersectionRect\<close> refers to has non-negative width and height; when the root bounds
  and the element's layout box (as passed in, not translated) share a point, it covers
  exactly the points that lie in both; when they share none, it is the zero rectangle
  with left, top, width, height, x and y all 0, an object and never absent.
\<close>

theorem intersectionRect_geometric:
  assumes "getIntersectionChangeEntry t root box h = (Inr e, h')"
  shows "0 \<le> r_width (h' ! intersectionRect e) \<and> 0 \<le> r_height (h' ! intersectionRect e) \<and>
         ((\<exists>px py. inside (h ! root) px py \<and> inside (h ! box) px py) \<longrightarrow>
            (\<forall>px py. inside (h' ! intersectionRect e) px py \<longleftrightarrow>
                      inside (h ! root) px py \<and> inside (h ! box) px py)) \<and>
         (\<not> (\<exists>px py. inside (h ! root) px py \<and> inside (h ! box) px py) \<longrightarrow>
            h' ! intersectionRect e =
              \<lparr>r_left = 0, r_top = 0, r_width = 0, r_height = 0, r_x = Some 0, r_y = Some 0\<rparr>)"
proof -
  from gice_Inr_D [OF assms]
  have v: "root < length h" "box < length h" "0 \<le> r_width (h ! box)" "0 \<le> r_height (h ! box)"
    by simp_all
  have l1: "length (set_xy root h) = length h" by (rule set_xy_length)
  have ir: "h' ! intersectionRect e = meet (h ! root) (h ! box)"
    using assms unfolding gice_ok [OF v, of t]
    by (auto simp: nth_append l1)
  show ?thesis
    unfolding ir overlapping_iff [symmetric]
    using meet_nonneg [of "h ! root" "h ! box"] inside_meet [of "h ! root" "h ! box"]
    by (simp add: meet_def ltwh_def)
qed


theorem intersectionRect_geometric_witness:
  "getIntersectionChangeEntry 7 0 1 example_heap =
     (Inr \<lparr>time = 7, rootBounds = 0, boundingClientRect = 4, intersectionRect = 5\<rparr>,
      snd (getIntersectionChangeEntry 7 0 1 example_heap)) \<and>
   snd (getIntersectionChangeEntry 7 0 1 example_heap) ! 5 =
     \<lparr>r_left = 50, r_top = 60, r_width = 50, r_height = 50, r_x = Some 50, r_y = Some 60\<rparr> \<and>
   inside (example_heap ! 0) 50 60 \<and> inside (example_heap ! 1) 50 60 \<and>
   (\<forall>px py. inside (snd (getIntersectionChangeEntry 7 0 1 example_heap) ! 5) px py \<longleftrightarrow>
             inside (example_heap ! 0) px py \<and> inside (example_heap ! 1) px py)"
proof -
  have ev: "getIntersectionChangeEntry 7 0 1 example_heap =
     (Inr \<lparr>time = 7, rootBounds = 0, boundingClientRect = 4, intersectionRect = 5\<rparr>,
      snd (getIntersectionChangeEntry 7 0 1 example_heap))"
    by (simp add: example_heap_def getIntersectionChangeEntry_def moveLayoutRect_def
          rectIntersection_def layoutRectLtwh_def alloc_def set_xy_def Let_def)
  have val: "snd (getIntersectionChangeEntry 7 0 1 example_heap) ! 5 =
     \<lparr>r_left = 50, r_top = 60, r_width = 50, r_height = 50, r_x = Some 50, r_y = Some 60\<rparr>"
    by (simp add: example_heap_def getIntersectionChangeEntry_def moveLayoutRect_def
          rectIntersection_def layoutRectLtwh_def alloc_def set_xy_def Let_def)
  have pt: "inside (example_heap ! 0) 50 60 \<and> inside (example_heap ! 1) 50 60"
    by (simp add: example_heap_def inside_def)
  from pt have ex: "\<exists>px py. inside (example_heap ! 0) px py \<and> inside (example_heap ! 1) px py"
    by blast
  from intersectionRect_geometric [OF ev] ex
  have "\<forall>px py. inside (snd (getIntersectionChangeEntry 7 0 1 example_heap) ! 5) px py \<longleftrightarrow>
             inside (example_heap ! 0) px py \<and> inside (example_heap ! 1) px py"
    by simp
  with ev val pt show ?thesis by blast
qed

text \<open>
  C8. For arguments that are rectangle objects: when the layout box has non-negative
  width and height (translation keeps both, so these are the dimensions of the
  translated box), the function returns an entry whose \<open>boundingClientRect\<close> is a new
  rectangle, the layout box moved by minus the left and minus the top of the root
  bounds, and the assertion does not fail; when the width or the height is negative,
  the function ends with the assertion error and returns no entry. The assertion error
  occurs in no other case.
\<close>

theorem boundingClientRect_translated_or_fatal:
  assumes "root < length h" "box < length h"
  shows "(0 \<le> r_width (h ! box) \<and> 0 \<le> r_height (h ! box) \<longrightarrow>
            fst (getIntersectionChangeEntry t root box h) =
              Inr \<lparr>time = t, rootBounds = root, boundingClientRect = length h,
                    intersectionRect = Suc (length h)\<rparr> \<and>
            snd (getIntersectionChangeEntry t root box h) ! length h =
              \<lparr>r_left = r_left (h ! box) - r_left (h ! root),
                r_top = r_top (h ! box) - r_top (h ! root),
                r_width = r_width (h ! box), r_height = r_height (h ! box),
                r_x = Some (r_left (h ! box) - r_left (h ! root)),
                r_y = Some (r_top (h ! box) - r_top (h ! root))\<rparr>) \<and>
         (r_width (h ! box) < 0 \<or> r_height (h ! box) < 0 \<longrightarrow>
            fst (getIntersectionChangeEntry t root box h) = Inl AssertionError) \<and>
         (fst (getIntersectionChangeEntry t root box h) = Inl AssertionError \<longrightarrow>
            r_width (h ! box) < 0 \<or> r_height (h ! box) < 0)"
proof (cases "0 \<le> r_width (h ! box) \<and> 0 \<le> r_height (h ! box)")
  case True
  then have v: "0 \<le> r_width (h ! box)" "0 \<le> r_height (h ! box)" by simp_all
  have l1: "length (set_xy root h) = length h" by (rule set_xy_length)
  show ?thesis
    unfolding gice_ok [OF assms v, of t] using v
    by (simp add: nth_append l1 ltwh_def)
next
  case False
  show ?thesis
    unfolding gice_assert [OF assms False, of t] using False by auto
qed

theorem boundingClientRect_translated_or_fatal_witness:
  "(0::nat) < length example_heap \<and> 1 < length example_heap \<and> 3 < length example_heap \<and>
   0 \<le> r_width (example_heap ! 1) \<and> 0 \<le> r_height (example_heap ! 1) \<and>
   snd (getIntersectionChangeEntry 7 0 1 example_heap) ! 4 =
     \<lparr>r_left = 50, r_top = 50, r_width = 100, r_height = 100, r_x = Some 50, r_y = Some 50\<rparr> \<and>
   r_height (example_heap ! 3) < 0 \<and>
   fst (getIntersectionChangeEntry 7 0 3 example_heap) = Inl AssertionError"
  using boundingClientRect_translated_or_fatal [of 0 example_heap 1 7]
    boundingClientRect_translated_or_fatal [of 0 example_heap 3 7]
  by (simp add: example_heap_def eval_nat_numeral)

text \<open>
  The function is not free of side effects: on the example heap, the rectangle passed
  as root bounds is different after the call (its \<open>x\<close> and \<open>y\<close> have been set).
\<close>

theorem getIntersectionChangeEntry_mutates_rootBounds:
  "snd (getIntersectionChangeEntry 7 0 1 example_heap) ! 0 \<noteq> example_heap ! 0"
  by (simp add: example_heap_def getIntersectionChangeEntry_def moveLayoutRect_def
        rectIntersection_def layoutRectLtwh_def alloc_def set_xy_def Let_def)

text \<open>
  C9, amended. The function is deterministic (its result is a function of its arguments
  and the heap). Its one effect on what existed before the call is on the rectangle
  passed as root bounds, whose \<open>x\<close> and \<open>y\<close> are set to its left and top, also when
  the assertion then fails. No rectangle is removed, and every other existing
  rectangle, the layout box included when it is a different object, is left as it was;
  the rectangles the entry refers to besides the root bounds are new.
\<close>

theorem getIntersectionChangeEntry_frame:
  "length h \<le> length (snd (getIntersectionChangeEntry t root box h)) \<and>
   (\<forall>p<length h. p \<noteq> root \<longrightarrow> snd (getIntersectionChangeEntry t root box h) ! p = h ! p) \<and>
   (root < length h \<longrightarrow>
      snd (getIntersectionChangeEntry t root box h) ! root =
        (h ! root)\<lparr>r_x := Some (r_left (h ! root)), r_y := Some (r_top (h ! root))\<rparr>)"
proof (cases "root < length h")
  case False
  then show ?thesis by (simp add: gice_null_root)
next
  case r: True
  have l1: "length (set_xy root h) = length h" by (rule set_xy_length)
  show ?thesis
  proof (cases "box < length h")
    case False
    then show ?thesis using r
      by (simp add: gice_null_box l1 set_xy_nth with_xy_def)
  next
    case b: True
    show ?thesis
    proof (cases "0 \<le> r_width (h ! box) \<and> 0 \<le> r_height (h ! box)")
      case True
      then have v: "0 \<le> r_width (h ! box)" "0 \<le> r_height (h ! box)" by simp_all
      show ?thesis
        unfolding gice_ok [OF r b v, of t] using r
        by (simp add: nth_append l1 set_xy_nth with_xy_def)
    next
      case False
      show ?thesis
        unfolding gice_assert [OF r b False, of t] using r
        by (simp add: nth_append l1 set_xy_nth with_xy_def)
    qed
  qed
qed

theorem getIntersectionChangeEntry_frame_witness:
  "(1::nat) < length example_heap \<and> (1::nat) \<noteq> 0 \<and>
   snd (getIntersectionChangeEntry 7 0 1 example_heap) ! 1 = example_heap ! 1 \<and>
   snd (getIntersectionChangeEntry 7 0 1 example_heap) ! 0 =
     \<lparr>r_left = 0, r_top = 10, r_width = 100, r_height = 100, r_x = Some 0, r_y = Some 10\<rparr>"
  using getIntersectionChangeEntry_frame [of example_heap 7 0 1]
  by (simp add: example_heap_def)

section \<open>Properties of the IntersectionObserver class\<close>


lemma flush_empty:
  "pendingChanges s = [] \<Longrightarrow> flush s = s\<lparr>flushTimeout := 0\<rparr>"
  by (simp add: flush_def)

lemma flush_nonempty:
  "pendingChanges s \<noteq> [] \<Longrightarrow>
   flush s = s\<lparr>pendingChanges := [], flushTimeout := 0,
              outbox := outbox s @
                [\<lparr>sentAt = now s, targets = clientWindows s, changes = pendingChanges s\<rparr>]\<rparr>"
  by (simp add: flush_def postMessageToWindows_def)

lemma send_inactive:
  "\<not> shouldSendIntersectionChanges s \<Longrightarrow> sendElementIntersection c s = s"
  by (simp add: sendElementIntersection_def)

lemma send_repeat:
  "pendingChanges s \<noteq> [] \<Longrightarrow> time (last (pendingChanges s)) = time c \<Longrightarrow>
   sendElementIntersection c s = s"
  by (simp add: sendElementIntersection_def last_conv_nth)

lemma send_queue:
  "shouldSendIntersectionChanges s \<Longrightarrow> flushTimeout s \<noteq> 0 \<Longrightarrow>
   pendingChanges s = [] \<or> time (last (pendingChanges s)) \<noteq> time c \<Longrightarrow>
   sendElementIntersection c s = s\<lparr>pendingChanges := pendingChanges s @ [c]\<rparr>"
  by (auto simp add: sendElementIntersection_def last_conv_nth)

lemma send_now:
  "shouldSendIntersectionChanges s \<Longrightarrow> flushTimeout s = 0 \<Longrightarrow>
   pendingChanges s = [] \<or> time (last (pendingChanges s)) \<noteq> time c \<Longrightarrow>
   sendElementIntersection c s =
     s\<lparr>pendingChanges := [],
       flushTimeout := Suc (timerCount s),
       timers := timers s @ [(Suc (timerCount s), now s + 100)],
       timerCount := Suc (timerCount s),
       outbox := outbox s @
         [\<lparr>sentAt = now s, targets = clientWindows s, changes = pendingChanges s @ [c]\<rparr>]\<rparr>"
  by (auto simp add: sendElementIntersection_def last_conv_nth flush_def
        postMessageToWindows_def timer_delay_def)

lemma send_cases:
  obtains (same) "sendElementIntersection c s = s"
  | (queued) "flushTimeout s \<noteq> 0"
      "sendElementIntersection c s = s\<lparr>pendingChanges := pendingChanges s @ [c]\<rparr>"
  | (sent) "flushTimeout s = 0"
      "sendElementIntersection c s =
         s\<lparr>pendingChanges := [],
           flushTimeout := Suc (timerCount s),
           timers := timers s @ [(Suc (timerCount s), now s + 100)],
           timerCount := Suc (timerCount s),
           outbox := outbox s @
             [\<lparr>sentAt = now s, targets = clientWindows s, changes = pendingChanges s @ [c]\<rparr>]\<rparr>"
proof (cases "shouldSendIntersectionChanges s")
  case False
  then show ?thesis using same send_inactive by blast
next
  case a: True
  show ?thesis
  proof (cases "pendingChanges s \<noteq> [] \<and> time (last (pendingChanges s)) = time c")
    case True
    then show ?thesis using same send_repeat by blast
  next
    case False
    then have n: "pendingChanges s = [] \<or> time (last (pendingChanges s)) \<noteq> time c" by blast
    show ?thesis
    proof (cases "flushTimeout s = 0")
      case True
      then show ?thesis using sent send_now [OF a True n] by blast
    next
      case False
      then show ?thesis using queued send_queue [OF a False n] by blast
    qed
  qed
qed

text \<open>The fields that \<open>fire\<close> leaves alone.\<close>

lemma fire_frame:
  "clientWindows (fire c s) = clientWindows s"
  "shouldSendIntersectionChanges (fire c s) = shouldSendIntersectionChanges s"
  "inViewport (fire c s) = inViewport s"
  "unlistenViewportChanges (fire c s) = unlistenViewportChanges s"
  "now (fire c s) = now s"
  "measureQueue (fire c s) = measureQueue s"
  "scrollObservers (fire c s) = scrollObservers s"
  "changedObservers (fire c s) = changedObservers s"
  "listenerCount (fire c s) = listenerCount s"
  "unlistenCalls (fire c s) = unlistenCalls s"
  unfolding fire_def by (cases c s rule: send_cases; simp)+


lemma fold_fire_inactive:
  "\<not> shouldSendIntersectionChanges s \<Longrightarrow> fold (\<lambda>_. fire c) ks s = s"
  by (induction ks) (simp_all add: fire_def send_inactive)

lemma onViewportCallback_inactive:
  assumes "\<not> shouldSendIntersectionChanges s"
  shows "\<not> shouldSendIntersectionChanges (onViewportCallback v c s) \<and>
         pendingChanges (onViewportCallback v c s) = pendingChanges s \<and>
         outbox (onViewportCallback v c s) = outbox s"
  using assms
  by (simp add: onViewportCallback_def fire_def send_inactive Let_def viewport_onScroll_def
        viewport_onChanged_def unlistenScroll_def unlistenChanged_def split: option.split)

lemma step_inactive:
  assumes "\<not> shouldSendIntersectionChanges s" "pendingChanges s = []"
    and "\<forall>w og. e \<noteq> Message w og"
  shows "\<not> shouldSendIntersectionChanges (step e s) \<and> pendingChanges (step e s) = [] \<and>
         outbox (step e s) = outbox s"
proof (cases e)
  case (Message w og)
  then show ?thesis using assms(3) by simp
next
  case (VsyncMeasure v c1 c2)
  have a: "\<not> shouldSendIntersectionChanges (s\<lparr>measureQueue := measureQueue s - 1\<rparr>)"
    using assms(1) by simp
  show ?thesis
    using assms(1,2) onViewportCallback_inactive [OF a, of True c1]
    by (simp add: VsyncMeasure measureCallback_def fire_def send_inactive)
next
  case (ViewportCallback v c)
  then show ?thesis using assms(2) onViewportCallback_inactive [OF assms(1), of v c] by simp
next
  case (Fire c)
  then show ?thesis using assms by (simp add: fire_def send_inactive)
next
  case (Scroll c)
  then show ?thesis using assms by (simp add: fold_fire_inactive)
next
  case (Changed c)
  then show ?thesis using assms by (simp add: fold_fire_inactive)
next
  case (Timeout k)
  then show ?thesis using assms by (simp add: flush_empty)
next
  case (Tick d)
  then show ?thesis using assms by simp
qed

lemma run_inactive:
  assumes "\<not> shouldSendIntersectionChanges s" "pendingChanges s = []"
    and "\<forall>w og. Message w og \<notin> set evs"
  shows "\<not> shouldSendIntersectionChanges (run evs s) \<and> pendingChanges (run evs s) = [] \<and>
         outbox (run evs s) = outbox s"
  using assms
proof (induction evs arbitrary: s)
  case Nil
  then show ?case by (simp add: run_def)
next
  case (Cons e evs)
  from Cons.prems(3) have e: "\<forall>w og. e \<noteq> Message w og" and r: "\<forall>w og. Message w og \<notin> set evs"
    by auto
  from step_inactive [OF Cons.prems(1,2) e]
  have 1: "\<not> shouldSendIntersectionChanges (step e s)" and 2: "pendingChanges (step e s) = []"
    and 3: "outbox (step e s) = outbox s" by simp_all
  from Cons.IH [OF 1 2 r] 3 show ?case by (simp add: run_def)
qed

text \<open>
  C3. In a run from the constructor in which the handshake message never arrives,
  whatever the viewport transitions, scroll and changed notifications, calls of
  \<open>fire\<close>, measure callbacks, timeouts and passage of time, the observer stays
  inactive and nothing is ever posted; and sendElementIntersection leaves the state it
  is called in exactly as it was.
\<close>

theorem no_handshake_no_broadcast:
  assumes "\<forall>w og. Message w og \<notin> set evs"
  shows "\<not> shouldSendIntersectionChanges (run evs constructor) \<and>
         outbox (run evs constructor) = [] \<and>
         (\<forall>c. sendElementIntersection c (run evs constructor) = run evs constructor)"
proof -
  have "\<not> shouldSendIntersectionChanges constructor" "pendingChanges constructor = []"
    "outbox constructor = []"
    by (simp_all add: constructor_def)
  with run_inactive [OF _ _ assms, of constructor] show ?thesis
    by (simp add: send_inactive)
qed

theorem no_handshake_no_broadcast_witness:
  "(\<forall>w og. Message w og \<notin> set [ViewportCallback True (entry_at 1), Scroll (entry_at 2),
       Changed (entry_at 3), Fire (entry_at 4), VsyncMeasure True (entry_at 5) (entry_at 5),
       ViewportCallback False (entry_at 6), Tick 100, Timeout 1]) \<and>
   outbox (run [ViewportCallback True (entry_at 1), Scroll (entry_at 2),
       Changed (entry_at 3), Fire (entry_at 4), VsyncMeasure True (entry_at 5) (entry_at 5),
       ViewportCallback False (entry_at 6), Tick 100, Timeout 1] constructor) = []"
  using no_handshake_no_broadcast [of "[ViewportCallback True (entry_at 1), Scroll (entry_at 2),
       Changed (entry_at 3), Fire (entry_at 4), VsyncMeasure True (entry_at 5) (entry_at 5),
       ViewportCallback False (entry_at 6), Tick 100, Timeout 1]"]
  by simp


lemma onViewportCallback_same:
  "inViewport s = v \<Longrightarrow> onViewportCallback v c s = s"
  by (simp add: onViewportCallback_def)

lemma onViewportCallback_enter:
  "\<not> inViewport s \<Longrightarrow>
   onViewportCallback True c s =
     (fire c (s\<lparr>inViewport := True\<rparr>))
       \<lparr>unlistenViewportChanges := Some (listenerCount s, Suc (listenerCount s)),
        scrollObservers := scrollObservers s @ [listenerCount s],
        changedObservers := changedObservers s @ [Suc (listenerCount s)],
        listenerCount := Suc (Suc (listenerCount s))\<rparr>"
  by (simp add: onViewportCallback_def Let_def viewport_onScroll_def viewport_onChanged_def
        fire_frame)

lemma onViewportCallback_leave:
  "inViewport s \<Longrightarrow> unlistenViewportChanges s = Some (a, b) \<Longrightarrow>
   onViewportCallback False c s =
     (fire c (s\<lparr>inViewport := False\<rparr>))
       \<lparr>unlistenViewportChanges := None,
        scrollObservers := removeAll a (scrollObservers s),
        changedObservers := removeAll b (changedObservers s),
        unlistenCalls := unlistenCalls s @ [a, b]\<rparr>"
  by (simp add: onViewportCallback_def Let_def unlistenScroll_def unlistenChanged_def
        fire_frame)

lemma onViewportCallback_leave_none:
  "inViewport s \<Longrightarrow> unlistenViewportChanges s = None \<Longrightarrow>
   onViewportCallback False c s = fire c (s\<lparr>inViewport := False\<rparr>)"
  by (simp add: onViewportCallback_def Let_def fire_frame)

lemma onViewportCallback_clientWindows:
  "clientWindows (onViewportCallback v c s) = clientWindows s"
proof (cases "inViewport s = v")
  case True
  then show ?thesis by (simp add: onViewportCallback_same)
next
  case False
  show ?thesis
  proof (cases v)
    case True
    with False show ?thesis by (simp add: onViewportCallback_enter fire_frame)
  next
    case f: False
    with False have i: "inViewport s" by simp
    show ?thesis
      using i f
      by (cases "unlistenViewportChanges s")
         (auto simp: onViewportCallback_leave onViewportCallback_leave_none fire_frame)
  qed
qed

lemma fold_fire_clientWindows:
  "clientWindows (fold (\<lambda>_. fire c) ks s) = clientWindows s"
  by (induction ks arbitrary: s) (simp_all add: fire_frame)

lemma flush_clientWindows: "clientWindows (flush s) = clientWindows s"
  by (simp add: flush_def postMessageToWindows_def Let_def)

lemma step_clientWindows:
  "\<forall>w og. e \<noteq> Message w og \<Longrightarrow> clientWindows (step e s) = clientWindows s"
  by (cases e)
     (simp_all add: measureCallback_def fire_frame onViewportCallback_clientWindows
        fold_fire_clientWindows flush_clientWindows)

lemma onSendIntersections_clientWindows:
  "clientWindows (onSendIntersections w og s) =
     (if w \<in> fst ` set (clientWindows s) then clientWindows s else clientWindows s @ [(w, og)])"
  by (auto simp: onSendIntersections_def startSendingIntersectionChanges_def list_ex_iff)

lemma run_clientWindows:
  "distinct (map fst (clientWindows s)) \<Longrightarrow>
   distinct (map fst (clientWindows (run evs s))) \<and>
   fst ` set (clientWindows (run evs s)) =
     fst ` set (clientWindows s) \<union> {w. \<exists>og. Message w og \<in> set evs}"
proof (induction evs arbitrary: s)
  case Nil
  then show ?case by (simp add: run_def)
next
  case (Cons e evs)
  show ?case
  proof (cases "\<exists>w og. e = Message w og")
    case True
    then obtain w og where e: "e = Message w og" by blast
    have d: "distinct (map fst (clientWindows (step e s)))"
      using Cons.prems by (auto simp: e onSendIntersections_clientWindows)
    have st: "fst ` set (clientWindows (step e s)) = insert w (fst ` set (clientWindows s))"
      by (auto simp: e onSendIntersections_clientWindows)
    from Cons.IH [OF d] st show ?thesis
      by (auto simp: run_def e)
  next
    case False
    then have n: "\<forall>w og. e \<noteq> Message w og" by blast
    have d: "distinct (map fst (clientWindows (step e s)))"
      using Cons.prems by (simp add: step_clientWindows [OF n])
    from Cons.IH [OF d] n show ?thesis
      by (auto simp: run_def step_clientWindows [OF n])
  qed
qed

text \<open>
  C6. After any run from the constructor, \<open>clientWindows\<close> holds each window that sent
  the handshake message exactly once and no other window, so it has as many entries as
  there are distinct such windows. A second handshake from the same window, whatever
  its origin, leaves \<open>clientWindows\<close> as it is; handshakes from two different windows
  with the same origin give two entries.
\<close>

theorem one_entry_per_window:
  "distinct (map fst (clientWindows (run evs constructor))) \<and>
   fst ` set (clientWindows (run evs constructor)) = {w. \<exists>og. Message w og \<in> set evs} \<and>
   length (clientWindows (run evs constructor)) = card {w. \<exists>og. Message w og \<in> set evs} \<and>
   clientWindows (onSendIntersections w og' (onSendIntersections w og s)) =
     clientWindows (onSendIntersections w og s) \<and>
   (w \<noteq> w' \<longrightarrow>
      clientWindows (onSendIntersections w' og (onSendIntersections w og constructor)) =
        [(w, og), (w', og)])"
proof -
  have c: "distinct (map fst (clientWindows constructor))" "clientWindows constructor = []"
    by (simp_all add: constructor_def)
  from run_clientWindows [OF c(1), of evs] c(2)
  have d: "distinct (map fst (clientWindows (run evs constructor)))"
    and st: "fst ` set (clientWindows (run evs constructor)) = {w. \<exists>og. Message w og \<in> set evs}"
    by simp_all
  have "length (clientWindows (run evs constructor)) =
          card (set (map fst (clientWindows (run evs constructor))))"
    using distinct_card [OF d] by simp
  then have len: "length (clientWindows (run evs constructor)) =
      card {w. \<exists>og. Message w og \<in> set evs}"
    using st by simp
  have twice: "clientWindows (onSendIntersections w og' (onSendIntersections w og s)) =
     clientWindows (onSendIntersections w og s)"
    by (auto simp: onSendIntersections_clientWindows)
  have two: "w \<noteq> w' \<longrightarrow>
      clientWindows (onSendIntersections w' og (onSendIntersections w og constructor)) =
        [(w, og), (w', og)]"
    by (simp add: onSendIntersections_clientWindows c(2))
  from d st len twice two show ?thesis by blast
qed

theorem one_entry_per_window_witness:
  "(1::nat) \<noteq> 2 \<and>
   clientWindows (onSendIntersections 2 ''https://a.test''
      (onSendIntersections 1 ''https://a.test'' constructor)) =
     [(1, ''https://a.test''), (2, ''https://a.test'')] \<and>
   length (clientWindows (run [Message 1 ''https://a.test'', Message 1 ''https://a.test'']
      constructor)) = 1"
proof -
  have "{w. \<exists>og. Message w og \<in> set [Message 1 ''https://a.test'', Message 1 ''https://a.test'']}
        = {1::nat}" by auto
  then show ?thesis
    using one_entry_per_window [of "[Message 1 ''https://a.test'', Message 1 ''https://a.test'']"
        1 "''https://a.test''" "''https://a.test''" constructor 2]
    by simp
qed


lemma subscriptions_ok_frame:
  assumes "unlistenViewportChanges s' = unlistenViewportChanges s" "inViewport s' = inViewport s"
    "scrollObservers s' = scrollObservers s" "changedObservers s' = changedObservers s"
    "listenerCount s' = listenerCount s" "unlistenCalls s' = unlistenCalls s"
  shows "subscriptions_ok s' = subscriptions_ok s"
  by (simp add: subscriptions_ok_def assms cong: option.case_cong prod.case_cong)

lemma fire_subscriptions_ok: "subscriptions_ok (fire c s) = subscriptions_ok s"
  by (rule subscriptions_ok_frame) (simp_all add: fire_frame)

lemma fold_fire_subscriptions_ok:
  "subscriptions_ok (fold (\<lambda>_. fire c) ks s) = subscriptions_ok s"
  by (induction ks arbitrary: s) (simp_all add: fire_subscriptions_ok)

lemma flush_subscriptions_ok: "subscriptions_ok (flush s) = subscriptions_ok s"
  by (rule subscriptions_ok_frame) (simp_all add: flush_def postMessageToWindows_def Let_def)

lemma onViewportCallback_subscriptions_ok:
  assumes "subscriptions_ok s"
  shows "subscriptions_ok (onViewportCallback v c s)"
proof (cases "inViewport s = v")
  case True
  then show ?thesis using assms by (simp add: onViewportCallback_same)
next
  case False
  show ?thesis
  proof (cases v)
    case True
    with False have n: "\<not> inViewport s" by simp
    then have u: "unlistenViewportChanges s = None"
      using assms by (auto simp: subscriptions_ok_def split: option.splits)
    show ?thesis
      using assms n u True
      by (auto simp: onViewportCallback_enter subscriptions_ok_def fire_frame less_Suc_eq)
  next
    case f: False
    with False have i: "inViewport s" by simp
    then obtain a b where u: "unlistenViewportChanges s = Some (a, b)"
      using assms by (auto simp: subscriptions_ok_def split: option.splits)
    show ?thesis
      using assms i u f
      by (auto simp: onViewportCallback_leave [OF i u] subscriptions_ok_def fire_frame)
  qed
qed

lemma step_subscriptions_ok:
  assumes "subscriptions_ok s"
  shows "subscriptions_ok (step e s)"
proof (cases e)
  case (Message w og)
  have "subscriptions_ok (onSendIntersections w og s) = subscriptions_ok s"
    by (rule subscriptions_ok_frame)
       (simp_all add: onSendIntersections_def startSendingIntersectionChanges_def)
  then show ?thesis using assms Message by simp
next
  case (VsyncMeasure v c1 c2)
  have "subscriptions_ok (s\<lparr>measureQueue := measureQueue s - 1\<rparr>) = subscriptions_ok s"
    by (rule subscriptions_ok_frame) simp_all
  then have a: "subscriptions_ok (s\<lparr>measureQueue := measureQueue s - 1\<rparr>)"
    using assms by simp
  show ?thesis
    using assms a onViewportCallback_subscriptions_ok [OF a, of True c1]
    by (simp add: VsyncMeasure measureCallback_def fire_subscriptions_ok)
next
  case (ViewportCallback v c)
  then show ?thesis using onViewportCallback_subscriptions_ok [OF assms] by simp
next
  case (Fire c)
  then show ?thesis using assms by (simp add: fire_subscriptions_ok)
next
  case (Scroll c)
  then show ?thesis using assms by (simp add: fold_fire_subscriptions_ok)
next
  case (Changed c)
  then show ?thesis using assms by (simp add: fold_fire_subscriptions_ok)
next
  case (Timeout k)
  have "subscriptions_ok (s\<lparr>timers := filter (\<lambda>t. fst t \<noteq> k) (timers s)\<rparr>) =
        subscriptions_ok s"
    by (rule subscriptions_ok_frame) simp_all
  then show ?thesis using assms Timeout by (simp add: flush_subscriptions_ok)
next
  case (Tick d)
  have "subscriptions_ok (s\<lparr>now := now s + d\<rparr>) = subscriptions_ok s"
    by (rule subscriptions_ok_frame) simp_all
  then show ?thesis using assms Tick by simp
qed

lemma run_subscriptions_ok:
  "subscriptions_ok s \<Longrightarrow> subscriptions_ok (run evs s)"
  by (induction evs arbitrary: s) (simp_all add: run_def step_subscriptions_ok)

lemma run_snoc: "run (evs @ [e]) s = step e (run evs s)"
  by (simp add: run_def)

text \<open>
  C10. After any run from the constructor, a scroll handler is subscribed exactly when
  \<open>inViewport\<close> is true, and so is a changed handler, and the class holds its unlisten
  closure exactly then; no handle is ever released twice. If the observer is in the
  viewport and the element then reports leaving it, the two subscribed handles, not
  released before, are each released once, the closure is cleared and nothing stays
  subscribed; a scroll or changed notification after that changes nothing, and neither
  does a repeated report of having left.
\<close>

theorem subscriptions_iff_in_viewport:
  "(inViewport (run evs constructor) \<longleftrightarrow> scrollObservers (run evs constructor) \<noteq> []) \<and>
   (inViewport (run evs constructor) \<longleftrightarrow> changedObservers (run evs constructor) \<noteq> []) \<and>
   (inViewport (run evs constructor) \<longleftrightarrow>
      unlistenViewportChanges (run evs constructor) \<noteq> None) \<and>
   distinct (unlistenCalls (run evs constructor)) \<and>
   (inViewport (run evs constructor) \<longrightarrow>
      (\<exists>a b. scrollObservers (run evs constructor) = [a] \<and>
             changedObservers (run evs constructor) = [b] \<and>
             a \<notin> set (unlistenCalls (run evs constructor)) \<and>
             b \<notin> set (unlistenCalls (run evs constructor)) \<and> a \<noteq> b \<and>
             unlistenCalls (run (evs @ [ViewportCallback False c]) constructor) =
               unlistenCalls (run evs constructor) @ [a, b]) \<and>
      \<not> inViewport (run (evs @ [ViewportCallback False c]) constructor) \<and>
      unlistenViewportChanges (run (evs @ [ViewportCallback False c]) constructor) = None \<and>
      scrollObservers (run (evs @ [ViewportCallback False c]) constructor) = [] \<and>
      changedObservers (run (evs @ [ViewportCallback False c]) constructor) = [] \<and>
      run (evs @ [ViewportCallback False c, Scroll c']) constructor =
        run (evs @ [ViewportCallback False c]) constructor \<and>
      run (evs @ [ViewportCallback False c, Changed c']) constructor =
        run (evs @ [ViewportCallback False c]) constructor \<and>
      run (evs @ [ViewportCallback False c, ViewportCallback False c']) constructor =
        run (evs @ [ViewportCallback False c]) constructor)"
proof -
  let ?s = "run evs constructor"
  have "subscriptions_ok constructor"
    by (simp add: subscriptions_ok_def constructor_def)
  then have ok: "subscriptions_ok ?s" by (rule run_subscriptions_ok)
  have 1: "inViewport ?s \<longleftrightarrow> scrollObservers ?s \<noteq> []"
    and 2: "inViewport ?s \<longleftrightarrow> changedObservers ?s \<noteq> []"
    and 3: "inViewport ?s \<longleftrightarrow> unlistenViewportChanges ?s \<noteq> None"
    and 4: "distinct (unlistenCalls ?s)"
    using ok by (auto simp: subscriptions_ok_def split: option.splits)
  have 5: ?thesis if i: "inViewport ?s"
  proof -
    from i ok obtain a b where u: "unlistenViewportChanges ?s = Some (a, b)"
      and so: "scrollObservers ?s = [a]" and co: "changedObservers ?s = [b]"
      and fresh: "a \<notin> set (unlistenCalls ?s)" "b \<notin> set (unlistenCalls ?s)" "a \<noteq> b"
      by (auto simp: subscriptions_ok_def split: option.splits)
    let ?t = "run (evs @ [ViewportCallback False c]) constructor"
    have t: "?t = onViewportCallback False c ?s" by (simp add: run_def)
    have tu: "unlistenCalls ?t = unlistenCalls ?s @ [a, b]"
      and tn: "unlistenViewportChanges ?t = None"
      and ts: "scrollObservers ?t = []" and tc: "changedObservers ?t = []"
      and ti: "\<not> inViewport ?t"
      unfolding t onViewportCallback_leave [OF i u]
      by (simp_all add: so co fire_frame)
    have e1: "run (evs @ [ViewportCallback False c, Scroll c']) constructor = ?t"
      using run_snoc [of "evs @ [ViewportCallback False c]" "Scroll c'" constructor] ts
      by simp
    have e2: "run (evs @ [ViewportCallback False c, Changed c']) constructor = ?t"
      using run_snoc [of "evs @ [ViewportCallback False c]" "Changed c'" constructor] tc
      by simp
    have e3: "run (evs @ [ViewportCallback False c, ViewportCallback False c']) constructor = ?t"
      using run_snoc [of "evs @ [ViewportCallback False c]" "ViewportCallback False c'" constructor]
        ti by (simp add: onViewportCallback_same)
    from 1 2 3 4 so co fresh tu tn ts tc ti e1 e2 e3 show ?thesis by blast
  qed
  show ?thesis
  proof (cases "inViewport ?s")
    case True
    then show ?thesis by (rule 5)
  next
    case False
    with 1 2 3 4 show ?thesis by blast
  qed
qed

theorem subscriptions_iff_in_viewport_witness:
  "inViewport (run [ViewportCallback True (entry_at 1)] constructor) \<and>
   scrollObservers (run [ViewportCallback True (entry_at 1)] constructor) = [0] \<and>
   changedObservers (run [ViewportCallback True (entry_at 1)] constructor) = [1] \<and>
   unlistenCalls (run [ViewportCallback True (entry_at 1), ViewportCallback False (entry_at 2)]
     constructor) = [0, 1] \<and>
   scrollObservers (run [ViewportCallback True (entry_at 1), ViewportCallback False (entry_at 2)]
     constructor) = [] \<and>
   run [ViewportCallback True (entry_at 1), ViewportCallback False (entry_at 2),
        Scroll (entry_at 3)] constructor =
     run [ViewportCallback True (entry_at 1), ViewportCallback False (entry_at 2)] constructor"
proof -
  have i: "inViewport (run [ViewportCallback True (entry_at 1)] constructor)"
    and so: "scrollObservers (run [ViewportCallback True (entry_at 1)] constructor) = [0]"
    and co: "changedObservers (run [ViewportCallback True (entry_at 1)] constructor) = [1]"
    and uc: "unlistenCalls (run [ViewportCallback True (entry_at 1)] constructor) = []"
    by (simp_all add: run_def constructor_def onViewportCallback_def fire_def
          sendElementIntersection_def viewport_onScroll_def viewport_onChanged_def Let_def)
  from subscriptions_iff_in_viewport
         [of "[ViewportCallback True (entry_at 1)]" "entry_at 2" "entry_at 3"] i so co uc
  show ?thesis by simp
qed


lemma onViewportCallback_inactive_rest:
  assumes "\<not> shouldSendIntersectionChanges s"
  shows "flushTimeout (onViewportCallback v c s) = flushTimeout s \<and>
         measureQueue (onViewportCallback v c s) = measureQueue s"
  using assms
  by (simp add: onViewportCallback_def fire_def send_inactive Let_def viewport_onScroll_def
        viewport_onChanged_def unlistenScroll_def unlistenChanged_def split: option.split)

lemma step_inactive_rest:
  assumes "\<not> shouldSendIntersectionChanges s" "flushTimeout s = 0" "measureQueue s = 0"
    and "\<forall>w og. e \<noteq> Message w og"
  shows "flushTimeout (step e s) = 0 \<and> measureQueue (step e s) = 0"
proof (cases e)
  case (Message w og)
  then show ?thesis using assms(4) by simp
next
  case (ViewportCallback v c)
  then show ?thesis using assms onViewportCallback_inactive_rest [OF assms(1), of v c] by simp
next
  case (Timeout k)
  then show ?thesis using assms by (simp add: flush_def Let_def postMessageToWindows_def)
qed (use assms in \<open>simp_all add: fire_def send_inactive fold_fire_inactive\<close>)

text \<open>
  As long as no handshake message has arrived, the observer is inactive, has no client
  windows, an empty queue, no timer and no measure callback queued.
\<close>

lemma inactive_state:
  assumes "\<forall>w og. Message w og \<notin> set evs"
  shows "\<not> shouldSendIntersectionChanges (run evs constructor) \<and>
         clientWindows (run evs constructor) = [] \<and>
         pendingChanges (run evs constructor) = [] \<and>
         flushTimeout (run evs constructor) = 0 \<and>
         measureQueue (run evs constructor) = 0"
proof -
  have g: "\<not> shouldSendIntersectionChanges (run evs s) \<and> pendingChanges (run evs s) = [] \<and>
           flushTimeout (run evs s) = 0 \<and> measureQueue (run evs s) = 0 \<and>
           clientWindows (run evs s) = clientWindows s"
    if "\<not> shouldSendIntersectionChanges s" "pendingChanges s = []" "flushTimeout s = 0"
      "measureQueue s = 0" "\<forall>w og. Message w og \<notin> set evs" for s
    using that
  proof (induction evs arbitrary: s)
    case Nil
    then show ?case by (simp add: run_def)
  next
    case (Cons e evs)
    from Cons.prems(5) have e: "\<forall>w og. e \<noteq> Message w og"
      and r: "\<forall>w og. Message w og \<notin> set evs" by auto
    from step_inactive [OF Cons.prems(1,2) e] step_inactive_rest [OF Cons.prems(1,3,4) e]
    have 1: "\<not> shouldSendIntersectionChanges (step e s)" "pendingChanges (step e s) = []"
      "flushTimeout (step e s) = 0" "measureQueue (step e s) = 0" by simp_all
    from Cons.IH [OF 1 r] step_clientWindows [OF e, of s] show ?case by (simp add: run_def)
  qed
  show ?thesis
    using g [of constructor, OF _ _ _ _ assms] by (simp add: constructor_def)
qed

text \<open>
  What the first handshake does at once. Take an inactive observer with no client
  windows, an empty queue and no timer or measure callback outstanding, as every
  observer is before its first handshake (\<open>inactive_state\<close>). One handshake message
  from window \<open>w\<close> sets the flag, queues one measure callback and registers \<open>w\<close>, and
  posts nothing yet. When that callback runs with the element in the viewport, one
  message is posted to \<open>w\<close> before the callback returns. If the observer had not been
  in the viewport, that message holds the entry of the viewport callback, and the entry
  of the callback's own \<open>fire\<close> is left in the queue behind the timer just set.
\<close>

lemma handshake_then_measure:
  assumes "\<not> shouldSendIntersectionChanges s" "clientWindows s = []"
    "pendingChanges s = []" "flushTimeout s = 0" "measureQueue s = 0"
  shows "shouldSendIntersectionChanges (run [Message w og] s) \<and>
         measureQueue (run [Message w og] s) = 1 \<and>
         clientWindows (run [Message w og] s) = [(w, og)] \<and>
         outbox (run [Message w og] s) = outbox s \<and>
         outbox (run [Message w og, VsyncMeasure True c1 c2] s) =
           outbox s @ [\<lparr>sentAt = now s, targets = [(w, og)],
                         changes = [if inViewport s then c2 else c1]\<rparr>] \<and>
         pendingChanges (run [Message w og, VsyncMeasure True c1 c2] s) =
           (if inViewport s then [] else [c2])"
proof -
  let ?s1 = "onSendIntersections w og s"
  have s1: "?s1 = s\<lparr>clientWindows := [(w, og)], shouldSendIntersectionChanges := True,
                     measureQueue := Suc 0\<rparr>"
    using assms by (simp add: onSendIntersections_def startSendingIntersectionChanges_def)
  let ?s2 = "s\<lparr>clientWindows := [(w, og)], shouldSendIntersectionChanges := True,
               measureQueue := 0\<rparr>"
  have r1: "run [Message w og] s = ?s1" by (simp add: run_def)
  have r2: "run [Message w og, VsyncMeasure True c1 c2] s =
              fire c2 (onViewportCallback True c1 ?s2)"
    by (simp add: run_def s1 measureCallback_def)
  have a: "shouldSendIntersectionChanges (run [Message w og] s) \<and>
         measureQueue (run [Message w og] s) = 1 \<and>
         clientWindows (run [Message w og] s) = [(w, og)] \<and>
         outbox (run [Message w og] s) = outbox s"
    unfolding r1 s1 by simp
  have b: "outbox (fire c2 (onViewportCallback True c1 ?s2)) =
           outbox s @ [\<lparr>sentAt = now s, targets = [(w, og)],
                         changes = [if inViewport s then c2 else c1]\<rparr>] \<and>
         pendingChanges (fire c2 (onViewportCallback True c1 ?s2)) =
           (if inViewport s then [] else [c2])"
  proof (cases "inViewport s")
    case True
    then have "onViewportCallback True c1 ?s2 = ?s2"
      by (simp add: onViewportCallback_same)
    then show ?thesis
      using True assms by (simp add: fire_def send_now)
  next
    case False
    let ?s3 = "fire c1 (?s2\<lparr>inViewport := True\<rparr>)"
    have s3: "?s3 = ?s2\<lparr>inViewport := True, pendingChanges := [],
                 flushTimeout := Suc (timerCount s),
                 timers := timers s @ [(Suc (timerCount s), now s + 100)],
                 timerCount := Suc (timerCount s),
                 outbox := outbox s @
                   [\<lparr>sentAt = now s, targets = [(w, og)], changes = [c1]\<rparr>]\<rparr>"
      using assms by (simp add: fire_def send_now)
    have "\<not> inViewport ?s2" using False by simp
    from onViewportCallback_enter [OF this, of c1]
    have e: "onViewportCallback True c1 ?s2 =
      ?s3\<lparr>unlistenViewportChanges := Some (listenerCount s, Suc (listenerCount s)),
          scrollObservers := scrollObservers s @ [listenerCount s],
          changedObservers := changedObservers s @ [Suc (listenerCount s)],
          listenerCount := Suc (Suc (listenerCount s))\<rparr>"
      by simp
    show ?thesis
      unfolding e s3 using False by (simp add: fire_def send_queue)
  qed
  from a b show ?thesis unfolding r2 by blast
qed

text \<open>
  C2. A new observer receives the handshake message from window 1, its measure
  callback runs with the element in the viewport, and the timer fires 100 ms later.
  Two messages have then been posted to window 1, each with one entry, both measured
  during the callback and of the same time: the second \<open>fire\<close> of the callback finds the
  queue emptied by the flush of the first, so the comparison with the last queued entry
  does not take place. The doc comment of \<^verbatim>\<open>startSendingIntersectionChanges_\<close> announces
  one change record.
\<close>

theorem first_handshake_two_broadcasts:
  "outbox (run [Message 1 ''https://a.test'',
                VsyncMeasure True (entry_at 5) (other_entry_at 5),
                Tick 100, Timeout 1] constructor) =
     [\<lparr>sentAt = 0, targets = [(1, ''https://a.test'')], changes = [entry_at 5]\<rparr>,
      \<lparr>sentAt = 100, targets = [(1, ''https://a.test'')], changes = [other_entry_at 5]\<rparr>] \<and>
   time (entry_at 5) = time (other_entry_at 5)"
  by (simp add: run_def constructor_def onSendIntersections_def
        startSendingIntersectionChanges_def measureCallback_def onViewportCallback_def
        viewport_onScroll_def viewport_onChanged_def fire_def sendElementIntersection_def
        flush_def postMessageToWindows_def timer_delay_def Let_def entry_at_def
        other_entry_at_def)

text \<open>
  Two consecutive calls with entries of the same time can both be delivered. On an
  active observer with no timer outstanding the first entry is posted at once, which
  empties the queue; the second call then finds nothing to compare with and its entry
  is queued, to be posted when the timer fires.
\<close>

theorem same_time_both_delivered:
  "time (entry_at 7) = time (other_entry_at 7) \<and>
   map changes (outbox (run [Message 1 ''https://a.test'', Fire (entry_at 7),
                             Fire (other_entry_at 7)] constructor)) = [[entry_at 7]] \<and>
   pendingChanges (run [Message 1 ''https://a.test'', Fire (entry_at 7),
                        Fire (other_entry_at 7)] constructor) = [other_entry_at 7] \<and>
   map changes (outbox (run [Message 1 ''https://a.test'', Fire (entry_at 7),
                             Fire (other_entry_at 7), Tick 100, Timeout 1] constructor)) =
     [[entry_at 7], [other_entry_at 7]]"
  by (simp add: run_def constructor_def onSendIntersections_def
        startSendingIntersectionChanges_def fire_def sendElementIntersection_def flush_def
        postMessageToWindows_def timer_delay_def Let_def entry_at_def other_entry_at_def)

text \<open>
  C4, amended. A call of sendElementIntersection whose entry has the time of the last
  entry in a non-empty queue changes nothing. On an active observer with a timer
  outstanding, of two consecutive calls whose entries have the same time at most the
  first entry is queued (it is appended unless it repeats the time of the last queued
  entry itself), the second call changes nothing, and nothing is posted.
\<close>

theorem same_time_queued_once:
  "(pendingChanges s \<noteq> [] \<and> time (last (pendingChanges s)) = time c2 \<longrightarrow>
      sendElementIntersection c2 s = s) \<and>
   (time c1 = time c2 \<and> shouldSendIntersectionChanges s \<and> flushTimeout s \<noteq> 0 \<longrightarrow>
      sendElementIntersection c2 (sendElementIntersection c1 s) = sendElementIntersection c1 s \<and>
      outbox (sendElementIntersection c1 s) = outbox s \<and>
      pendingChanges (sendElementIntersection c1 s) =
        (if pendingChanges s \<noteq> [] \<and> time (last (pendingChanges s)) = time c1
         then pendingChanges s else pendingChanges s @ [c1]))"
proof -
  have 1: "pendingChanges s \<noteq> [] \<and> time (last (pendingChanges s)) = time c2 \<longrightarrow>
      sendElementIntersection c2 s = s"
    by (simp add: send_repeat)
  have 2: "sendElementIntersection c2 (sendElementIntersection c1 s) = sendElementIntersection c1 s \<and>
      outbox (sendElementIntersection c1 s) = outbox s \<and>
      pendingChanges (sendElementIntersection c1 s) =
        (if pendingChanges s \<noteq> [] \<and> time (last (pendingChanges s)) = time c1
         then pendingChanges s else pendingChanges s @ [c1])"
    if t: "time c1 = time c2" and a: "shouldSendIntersectionChanges s" and f: "flushTimeout s \<noteq> 0"
  proof (cases "pendingChanges s \<noteq> [] \<and> time (last (pendingChanges s)) = time c1")
    case True
    then have "sendElementIntersection c1 s = s" by (simp add: send_repeat)
    then show ?thesis using True t by (simp add: send_repeat)
  next
    case False
    then have "pendingChanges s = [] \<or> time (last (pendingChanges s)) \<noteq> time c1" by blast
    from send_queue [OF a f this]
    have q: "sendElementIntersection c1 s = s\<lparr>pendingChanges := pendingChanges s @ [c1]\<rparr>" .
    show ?thesis unfolding q using t False by (auto simp: send_repeat)
  qed
  from 1 2 show ?thesis by blast
qed

theorem same_time_queued_once_witness:
  "time (entry_at 7) = time (other_entry_at 7) \<and>
   shouldSendIntersectionChanges
     (run [Message 1 ''https://a.test'', Fire (entry_at 5)] constructor) \<and>
   flushTimeout (run [Message 1 ''https://a.test'', Fire (entry_at 5)] constructor) \<noteq> 0 \<and>
   pendingChanges (sendElementIntersection (entry_at 7)
     (run [Message 1 ''https://a.test'', Fire (entry_at 5)] constructor)) = [entry_at 7] \<and>
   sendElementIntersection (other_entry_at 7) (sendElementIntersection (entry_at 7)
     (run [Message 1 ''https://a.test'', Fire (entry_at 5)] constructor)) =
   sendElementIntersection (entry_at 7)
     (run [Message 1 ''https://a.test'', Fire (entry_at 5)] constructor)"
proof -
  let ?s = "run [Message 1 ''https://a.test'', Fire (entry_at 5)] constructor"
  have a: "shouldSendIntersectionChanges ?s" and f: "flushTimeout ?s \<noteq> 0"
    and p: "pendingChanges ?s = []"
    by (simp_all add: run_def constructor_def onSendIntersections_def
          startSendingIntersectionChanges_def fire_def sendElementIntersection_def flush_def
          postMessageToWindows_def timer_delay_def Let_def)
  have t: "time (entry_at 7) = time (other_entry_at 7)"
    by (simp add: entry_at_def other_entry_at_def)
  from same_time_queued_once [of ?s "other_entry_at 7" "entry_at 7"] a f p t
  show ?thesis by simp
qed

subsection \<open>The timer and the queue\<close>

lemma timer_ok_frame:
  "flushTimeout s' = flushTimeout s \<Longrightarrow> pendingChanges s' = pendingChanges s \<Longrightarrow>
   timers s' = timers s \<Longrightarrow> timer_ok s' = timer_ok s"
  by (simp add: timer_ok_def)

lemma fire_timer_ok: "timer_ok s \<Longrightarrow> timer_ok (fire c s)"
  unfolding fire_def
  by (cases c s rule: send_cases) (auto simp: timer_ok_def)

lemma fold_fire_timer_ok: "timer_ok s \<Longrightarrow> timer_ok (fold (\<lambda>_. fire c) ks s)"
  by (induction ks arbitrary: s) (simp_all add: fire_timer_ok)

lemma onViewportCallback_timer_ok:
  assumes "timer_ok s"
  shows "timer_ok (onViewportCallback v c s)"
proof (cases "inViewport s = v")
  case True
  then show ?thesis using assms by (simp add: onViewportCallback_same)
next
  case False
  have "timer_ok (s\<lparr>inViewport := v\<rparr>) = timer_ok s"
    by (rule timer_ok_frame) simp_all
  with assms have t: "timer_ok (fire c (s\<lparr>inViewport := v\<rparr>))"
    by (simp add: fire_timer_ok)
  show ?thesis
  proof (cases v)
    case True
    with False have n: "\<not> inViewport s" by simp
    have "timer_ok (onViewportCallback True c s) = timer_ok (fire c (s\<lparr>inViewport := True\<rparr>))"
      unfolding onViewportCallback_enter [OF n] by (rule timer_ok_frame) simp_all
    with t True show ?thesis by simp
  next
    case f: False
    with False have i: "inViewport s" by simp
    show ?thesis
    proof (cases "unlistenViewportChanges s")
      case None
      with t f i show ?thesis by (simp add: onViewportCallback_leave_none)
    next
      case (Some ab)
      obtain a b where ab: "ab = (a, b)" by (cases ab)
      have "timer_ok (onViewportCallback False c s) =
            timer_ok (fire c (s\<lparr>inViewport := False\<rparr>))"
        unfolding onViewportCallback_leave [OF i Some [unfolded ab]]
        by (rule timer_ok_frame) simp_all
      with t f show ?thesis by simp
    qed
  qed
qed

lemma step_timer_ok:
  assumes "timer_ok s"
  shows "timer_ok (step e s)"
proof (cases e)
  case (Message w og)
  have "timer_ok (onSendIntersections w og s) = timer_ok s"
    by (rule timer_ok_frame)
       (simp_all add: onSendIntersections_def startSendingIntersectionChanges_def)
  then show ?thesis using assms Message by simp
next
  case (VsyncMeasure v c1 c2)
  have "timer_ok (s\<lparr>measureQueue := measureQueue s - 1\<rparr>) = timer_ok s"
    by (rule timer_ok_frame) simp_all
  then have a: "timer_ok (s\<lparr>measureQueue := measureQueue s - 1\<rparr>)"
    using assms by simp
  show ?thesis
    using assms a onViewportCallback_timer_ok [OF a, of True c1]
    by (cases v) (simp_all add: VsyncMeasure measureCallback_def fire_timer_ok)
next
  case (ViewportCallback v c)
  then show ?thesis using onViewportCallback_timer_ok [OF assms] by simp
next
  case (Fire c)
  then show ?thesis using assms by (simp add: fire_timer_ok)
next
  case (Scroll c)
  then show ?thesis using assms by (simp add: fold_fire_timer_ok)
next
  case (Changed c)
  then show ?thesis using assms by (simp add: fold_fire_timer_ok)
next
  case (Timeout k)
  show ?thesis
  proof (cases "list_ex (\<lambda>t. fst t = k \<and> snd t \<le> now s) (timers s)")
    case False
    then show ?thesis using assms Timeout by simp
  next
    case True
    then have ne: "timers s \<noteq> []" by auto
    with assms have f: "flushTimeout s \<noteq> 0" and m: "map fst (timers s) = [flushTimeout s]"
      by (auto simp: timer_ok_def split: if_splits)
    from m obtain d where t: "timers s = [(flushTimeout s, d)]" by auto
    with True have k: "k = flushTimeout s" by simp
    have "timer_ok (flush (s\<lparr>timers := []\<rparr>))"
      by (cases "pendingChanges s = []")
         (simp_all add: flush_empty flush_nonempty timer_ok_def)
    then show ?thesis using True Timeout by (simp add: t k)
  qed
next
  case (Tick d)
  have "timer_ok (s\<lparr>now := now s + d\<rparr>) = timer_ok s"
    by (rule timer_ok_frame) simp_all
  then show ?thesis using assms Tick by simp
qed

text \<open>
  After any run from the constructor, an observer without a timer has an empty queue
  and no timer is outstanding.
\<close>

lemma no_timer_means_idle:
  assumes "flushTimeout (run evs constructor) = 0"
  shows "pendingChanges (run evs constructor) = [] \<and> timers (run evs constructor) = []"
proof -
  have ok: "timer_ok (run evs s)" if "timer_ok s" for s
    using that by (induction evs arbitrary: s) (simp_all add: run_def step_timer_ok)
  have "timer_ok constructor" by (simp add: timer_ok_def constructor_def)
  from ok [OF this] assms show ?thesis by (simp add: timer_ok_def)
qed



subsection \<open>One rate-limit window\<close>

lemma dropRepeatedTimes_Nil_iff: "dropRepeatedTimes cs = [] \<longleftrightarrow> cs = []"
  by (induction cs rule: dropRepeatedTimes.induct) simp_all

lemma dropRepeatedTimes_distinct_adj:
  "distinct_adj (map time cs) \<Longrightarrow> dropRepeatedTimes cs = cs"
  by (induction cs rule: dropRepeatedTimes.induct) auto

lemma set_dropRepeatedTimes: "set (dropRepeatedTimes cs) \<subseteq> set cs"
  by (induction cs rule: dropRepeatedTimes.induct) auto

lemma sorted_dropRepeatedTimes:
  "sorted (map time cs) \<Longrightarrow> sorted (map time (dropRepeatedTimes cs))"
proof (induction cs rule: dropRepeatedTimes.induct)
  case (1 c d cs)
  show ?case
  proof (cases "time d = time c")
    case True
    with 1 show ?thesis by simp
  next
    case False
    have "\<forall>x\<in>set (dropRepeatedTimes (d # cs)). time c \<le> time x"
      using set_dropRepeatedTimes [of "d # cs"] "1.prems" by auto
    with 1 False show ?thesis by simp
  qed
qed simp_all

lemma window_run:
  assumes "shouldSendIntersectionChanges s" "flushTimeout s \<noteq> 0" "\<forall>e\<in>set evs. fire_or_tick e"
  shows "run evs s =
     s\<lparr>pendingChanges :=
         (if pendingChanges s = [] then dropRepeatedTimes (fired evs)
          else butlast (pendingChanges s) @
               dropRepeatedTimes (last (pendingChanges s) # fired evs)),
       now := now s + elapsed evs\<rparr>"
  using assms
proof (induction evs arbitrary: s)
  case Nil
  then show ?case by (simp add: run_def)
next
  case (Cons e evs)
  from Cons.prems(3) have w: "\<forall>e\<in>set evs. fire_or_tick e" and fe: "fire_or_tick e" by simp_all
  have r: "run (e # evs) s = run evs (step e s)" by (simp add: run_def)
  from fe show ?case
  proof (cases e)
    case (Tick d)
    let ?s1 = "s\<lparr>now := now s + d\<rparr>"
    have st: "step e s = ?s1" by (simp add: Tick)
    have "shouldSendIntersectionChanges ?s1" "flushTimeout ?s1 \<noteq> 0"
      using Cons.prems by simp_all
    from Cons.IH [OF this w]
    have ih: "run evs ?s1 =
       s\<lparr>pendingChanges :=
           (if pendingChanges s = [] then dropRepeatedTimes (fired evs)
            else butlast (pendingChanges s) @
                 dropRepeatedTimes (last (pendingChanges s) # fired evs)),
         now := now s + d + elapsed evs\<rparr>"
      by (simp add: add.assoc cong: if_cong)
    show ?thesis
      unfolding r st ih by (simp add: Tick add.assoc)
  next
    case (Fire c)
    note a = Cons.prems(1) and f = Cons.prems(2)
    show ?thesis
    proof (cases "pendingChanges s \<noteq> [] \<and> time (last (pendingChanges s)) = time c")
      case True
      then have "step e s = s" by (simp add: Fire fire_def send_repeat)
      then have "run (e # evs) s = run evs s" by (simp add: r)
      with Cons.IH [OF a f w] True show ?thesis
        by (simp add: Fire)
    next
      case False
      then have n: "pendingChanges s = [] \<or> time (last (pendingChanges s)) \<noteq> time c" by blast
      let ?s1 = "s\<lparr>pendingChanges := pendingChanges s @ [c]\<rparr>"
      have s1: "step e s = ?s1" by (simp add: Fire fire_def send_queue [OF a f n])
      have "shouldSendIntersectionChanges ?s1" "flushTimeout ?s1 \<noteq> 0"
        using a f by simp_all
      from Cons.IH [OF this w]
      have ih: "run evs ?s1 =
         s\<lparr>pendingChanges := pendingChanges s @ dropRepeatedTimes (c # fired evs),
           now := now s + elapsed evs\<rparr>"
        by simp
      show ?thesis
      proof (cases "pendingChanges s = []")
        case True
        then show ?thesis unfolding r s1 ih by (simp add: Fire)
      next
        case ne: False
        with n have "time c \<noteq> time (last (pendingChanges s))" by auto
        then have "butlast (pendingChanges s) @
             dropRepeatedTimes (last (pendingChanges s) # c # fired evs) =
             pendingChanges s @ dropRepeatedTimes (c # fired evs)"
          using ne append_butlast_last_id [OF ne]
          by (metis append.assoc append_Cons append_Nil dropRepeatedTimes.simps(1))
        then show ?thesis unfolding r s1 ih using ne by (simp add: Fire)
      qed
    qed
  qed simp_all
qed

text \<open>
  Three calls of \<open>fire\<close> in one window need not give three entries: the third call
  measures the time of the second, and the two messages hold two entries in all.
\<close>

theorem rate_limit_repeated_time_dropped:
  "map (map time \<circ> changes)
     (outbox (run [Message 1 ''https://a.test'', Fire (entry_at 1), Fire (entry_at 2),
                   Fire (other_entry_at 2), Tick 100, Timeout 1] constructor)) = [[1], [2]] \<and>
   length (concat (map changes
     (outbox (run [Message 1 ''https://a.test'', Fire (entry_at 1), Fire (entry_at 2),
                   Fire (other_entry_at 2), Tick 100, Timeout 1] constructor)))) \<noteq> 3"
  by (simp add: run_def constructor_def onSendIntersections_def
        startSendingIntersectionChanges_def fire_def sendElementIntersection_def flush_def
        postMessageToWindows_def timer_delay_def Let_def entry_at_def other_entry_at_def)

text \<open>
  C1, amended. Take an active observer with no timer outstanding, hence with an empty
  queue (\<open>no_timer_means_idle\<close>), let \<open>fire\<close> be called once and then one or more
  further times while time passes. The first call posts one message at once, holding
  its entry alone, and sets the one timer, due 100 ms after that call; the further
  calls post nothing. As long as less than 100 ms have passed, no timeout changes
  anything. When the timer fires after 100 ms or more, a second message is posted,
  holding in call order the entries of the further calls without those whose time
  repeats the time of the call before; the queue is then empty and no timer is set.
  So exactly two messages are posted, at least 100 ms apart; the second holds all the
  further entries when no two consecutive further calls measure the same time, and
  the entries are in order of time when the measured times never decrease.
\<close>

theorem rate_limit_window:
  assumes "shouldSendIntersectionChanges s"
    and "flushTimeout s = 0" "pendingChanges s = []" "timers s = []"
    and "\<forall>e\<in>set evs. fire_or_tick e" and "fired evs \<noteq> []"
  shows "outbox (run (Fire c # evs) s) =
           outbox s @ [\<lparr>sentAt = now s, targets = clientWindows s, changes = [c]\<rparr>] \<and>
         timers (run (Fire c # evs) s) = [(Suc (timerCount s), now s + 100)] \<and>
         now (run (Fire c # evs) s) = now s + elapsed evs \<and>
         (elapsed evs < 100 \<longrightarrow>
            (\<forall>k. run (Fire c # evs @ [Timeout k]) s = run (Fire c # evs) s)) \<and>
         (100 \<le> elapsed evs \<longrightarrow>
            outbox (run (Fire c # evs @ [Timeout (Suc (timerCount s))]) s) =
              outbox s @
                [\<lparr>sentAt = now s, targets = clientWindows s, changes = [c]\<rparr>,
                 \<lparr>sentAt = now s + elapsed evs, targets = clientWindows s,
                   changes = dropRepeatedTimes (fired evs)\<rparr>] \<and>
            pendingChanges (run (Fire c # evs @ [Timeout (Suc (timerCount s))]) s) = [] \<and>
            flushTimeout (run (Fire c # evs @ [Timeout (Suc (timerCount s))]) s) = 0 \<and>
            timers (run (Fire c # evs @ [Timeout (Suc (timerCount s))]) s) = []) \<and>
         dropRepeatedTimes (fired evs) \<noteq> [] \<and>
         (distinct_adj (map time (fired evs)) \<longrightarrow> dropRepeatedTimes (fired evs) = fired evs) \<and>
         (sorted (map time (c # fired evs)) \<longrightarrow>
            sorted (map time (c # dropRepeatedTimes (fired evs))))"
proof -
  let ?k = "Suc (timerCount s)"
  let ?s1 = "s\<lparr>pendingChanges := [], flushTimeout := ?k,
               timers := timers s @ [(?k, now s + 100)], timerCount := ?k,
               outbox := outbox s @
                 [\<lparr>sentAt = now s, targets = clientWindows s, changes = pendingChanges s @ [c]\<rparr>]\<rparr>"
  have s1: "fire c s = ?s1"
    using send_now [OF assms(1,2), of c] assms(3) by (simp add: fire_def)
  have "shouldSendIntersectionChanges ?s1" "flushTimeout ?s1 \<noteq> 0"
    using assms(1) by simp_all
  from window_run [OF this assms(5)]
  have s2: "run evs ?s1 =
     ?s1\<lparr>pendingChanges := dropRepeatedTimes (fired evs), now := now s + elapsed evs\<rparr>"
    by simp
  have r0: "run (Fire c # evs) s = run evs (fire c s)"
    by (simp add: run_def)
  have r: "run (Fire c # evs @ [Timeout j]) s = step (Timeout j) (run evs (fire c s))" for j
    by (simp add: run_def)
  have ne: "dropRepeatedTimes (fired evs) \<noteq> []"
    using assms(6) by (simp add: dropRepeatedTimes_Nil_iff)
  have w: "outbox (run (Fire c # evs) s) =
             outbox s @ [\<lparr>sentAt = now s, targets = clientWindows s, changes = [c]\<rparr>] \<and>
           timers (run (Fire c # evs) s) = [(?k, now s + 100)] \<and>
           now (run (Fire c # evs) s) = now s + elapsed evs"
    unfolding r0 s1 s2 using assms(3,4) by simp
  have early: "run (Fire c # evs @ [Timeout j]) s = run (Fire c # evs) s"
    if "elapsed evs < 100" for j
    unfolding r r0 s1 s2 using assms(4) that by simp
  have fin: "run (Fire c # evs @ [Timeout ?k]) s =
     s\<lparr>pendingChanges := [], flushTimeout := 0, timers := [], timerCount := ?k,
       now := now s + elapsed evs,
       outbox := outbox s @
             [\<lparr>sentAt = now s, targets = clientWindows s, changes = [c]\<rparr>,
              \<lparr>sentAt = now s + elapsed evs, targets = clientWindows s,
                changes = dropRepeatedTimes (fired evs)\<rparr>]\<rparr>"
    if "100 \<le> elapsed evs"
    unfolding r s1 s2 using assms(3,4) that ne
    by (simp add: flush_nonempty)
  have so: "sorted (map time (c # fired evs)) \<longrightarrow>
            sorted (map time (c # dropRepeatedTimes (fired evs)))"
    using sorted_dropRepeatedTimes [of "fired evs"] set_dropRepeatedTimes [of "fired evs"]
    by auto
  have late: "100 \<le> elapsed evs \<longrightarrow>
            outbox (run (Fire c # evs @ [Timeout ?k]) s) =
              outbox s @
                [\<lparr>sentAt = now s, targets = clientWindows s, changes = [c]\<rparr>,
                 \<lparr>sentAt = now s + elapsed evs, targets = clientWindows s,
                   changes = dropRepeatedTimes (fired evs)\<rparr>] \<and>
            pendingChanges (run (Fire c # evs @ [Timeout ?k]) s) = [] \<and>
            flushTimeout (run (Fire c # evs @ [Timeout ?k]) s) = 0 \<and>
            timers (run (Fire c # evs @ [Timeout ?k]) s) = []"
    using fin by simp
  have da: "distinct_adj (map time (fired evs)) \<longrightarrow> dropRepeatedTimes (fired evs) = fired evs"
    by (simp add: dropRepeatedTimes_distinct_adj)
  from w early late ne da so show ?thesis by blast
qed

theorem rate_limit_window_witness:
  "shouldSendIntersectionChanges (run [Message 1 ''https://a.test''] constructor) \<and>
   flushTimeout (run [Message 1 ''https://a.test''] constructor) = 0 \<and>
   pendingChanges (run [Message 1 ''https://a.test''] constructor) = [] \<and>
   timers (run [Message 1 ''https://a.test''] constructor) = [] \<and>
   list_all fire_or_tick [Fire (entry_at 2), Tick 30, Fire (entry_at 3), Tick 70] \<and>
   fired [Fire (entry_at 2), Tick 30, Fire (entry_at 3), Tick 70] \<noteq> [] \<and>
   100 \<le> elapsed [Fire (entry_at 2), Tick 30, Fire (entry_at 3), Tick 70] \<and>
   distinct_adj (map time (fired [Fire (entry_at 2), Tick 30, Fire (entry_at 3), Tick 70])) \<and>
   outbox (run (Fire (entry_at 1) # [Fire (entry_at 2), Tick 30, Fire (entry_at 3), Tick 70] @
                [Timeout 1])
             (run [Message 1 ''https://a.test''] constructor)) =
     [\<lparr>sentAt = 0, targets = [(1, ''https://a.test'')], changes = [entry_at 1]\<rparr>,
      \<lparr>sentAt = 100, targets = [(1, ''https://a.test'')],
        changes = [entry_at 2, entry_at 3]\<rparr>] \<and>
   list_all fire_or_tick [Fire (entry_at 2), Tick 30, Fire (entry_at 3), Tick 69] \<and>
   fired [Fire (entry_at 2), Tick 30, Fire (entry_at 3), Tick 69] \<noteq> [] \<and>
   elapsed [Fire (entry_at 2), Tick 30, Fire (entry_at 3), Tick 69] < 100 \<and>
   outbox (run (Fire (entry_at 1) # [Fire (entry_at 2), Tick 30, Fire (entry_at 3), Tick 69] @
                [Timeout 1])
             (run [Message 1 ''https://a.test''] constructor)) =
     [\<lparr>sentAt = 0, targets = [(1, ''https://a.test'')], changes = [entry_at 1]\<rparr>]"
proof -
  let ?s = "run [Message 1 ''https://a.test''] constructor"
  let ?evs = "[Fire (entry_at 2), Tick 30, Fire (entry_at 3), Tick 70]"
  let ?evs' = "[Fire (entry_at 2), Tick 30, Fire (entry_at 3), Tick 69]"
  have s: "?s = constructor\<lparr>clientWindows := [(1, ''https://a.test'')],
                shouldSendIntersectionChanges := True, measureQueue := Suc 0\<rparr>"
    by (simp add: run_def constructor_def onSendIntersections_def
          startSendingIntersectionChanges_def)
  have h: "shouldSendIntersectionChanges ?s" "flushTimeout ?s = 0" "pendingChanges ?s = []"
    "timers ?s = []"
    unfolding s by (simp_all add: constructor_def)
  have e: "\<forall>e\<in>set ?evs. fire_or_tick e" "fired ?evs \<noteq> []"
    and e100: "100 \<le> elapsed ?evs"
    by simp_all
  have e': "\<forall>e\<in>set ?evs'. fire_or_tick e" "fired ?evs' \<noteq> []"
    and e99: "elapsed ?evs' < 100"
    by simp_all
  have d: "distinct_adj (map time (fired ?evs))" by (simp add: entry_at_def)
  have v: "timerCount ?s = 0" "outbox ?s = []" "now ?s = 0"
    "clientWindows ?s = [(1, ''https://a.test'')]"
    unfolding s by (simp_all add: constructor_def)
  from rate_limit_window [OF h e, of "entry_at 1"] d v e100
  have late: "outbox (run (Fire (entry_at 1) # ?evs @ [Timeout 1]) ?s) =
     [\<lparr>sentAt = 0, targets = [(1, ''https://a.test'')], changes = [entry_at 1]\<rparr>,
      \<lparr>sentAt = 100, targets = [(1, ''https://a.test'')],
        changes = [entry_at 2, entry_at 3]\<rparr>]"
    by simp
  from rate_limit_window [OF h e', of "entry_at 1"] v e99
  have "run (Fire (entry_at 1) # ?evs' @ [Timeout 1]) ?s = run (Fire (entry_at 1) # ?evs') ?s"
    and "outbox (run (Fire (entry_at 1) # ?evs') ?s) =
     [\<lparr>sentAt = 0, targets = [(1, ''https://a.test'')], changes = [entry_at 1]\<rparr>]"
    by simp_all
  then have early: "outbox (run (Fire (entry_at 1) # ?evs' @ [Timeout 1]) ?s) =
     [\<lparr>sentAt = 0, targets = [(1, ''https://a.test'')], changes = [entry_at 1]\<rparr>]"
    by simp
  from h e(2) e'(2) e100 e99 d late early show ?thesis by simp
qed

text \<open>
  Each immediate send opens a window of its own: a \<open>fire\<close> just after the timer's flush
  is posted at once, here 1 ms after the message before it.
\<close>

lemma send_right_after_timeout:
  "map sentAt (outbox (run [Message 1 ''https://a.test'', Fire (entry_at 1), Tick 50,
      Fire (entry_at 2), Tick 50, Timeout 1, Tick 1, Fire (entry_at 3)] constructor)) =
   [0, 100, 101]"
  by (simp add: run_def constructor_def onSendIntersections_def
        startSendingIntersectionChanges_def fire_def sendElementIntersection_def flush_def
        postMessageToWindows_def timer_delay_def Let_def entry_at_def)

subsection \<open>The times in the queue\<close>

lemma queue_increasing_upto_mono:
  "queue_increasing_upto s t \<Longrightarrow> t \<le> t' \<Longrightarrow> queue_increasing_upto s t'"
  by (auto simp: queue_increasing_upto_def)

lemma queue_increasing_upto_frame:
  "pendingChanges s' = pendingChanges s \<Longrightarrow>
   queue_increasing_upto s' t = queue_increasing_upto s t"
  by (simp add: queue_increasing_upto_def)

lemma queue_increasing_upto_empty:
  "pendingChanges s = [] \<Longrightarrow> queue_increasing_upto s t"
  by (simp add: queue_increasing_upto_def)

lemma increasing_below_last:
  fixes xs :: "int list"
  shows "sorted_wrt (<) xs \<Longrightarrow> x \<in> set xs \<Longrightarrow> x \<le> last xs"
  by (induction xs) (auto simp: less_imp_le)

lemma fire_queue_increasing_upto:
  assumes "queue_increasing_upto s t" "t \<le> time c"
  shows "queue_increasing_upto (fire c s) (time c)"
proof (cases "shouldSendIntersectionChanges s")
  case False
  then show ?thesis
    using queue_increasing_upto_mono [OF assms] by (simp add: fire_def send_inactive)
next
  case a: True
  show ?thesis
  proof (cases "pendingChanges s \<noteq> [] \<and> time (last (pendingChanges s)) = time c")
    case True
    then show ?thesis
      using queue_increasing_upto_mono [OF assms] by (simp add: fire_def send_repeat)
  next
    case False
    then have n: "pendingChanges s = [] \<or> time (last (pendingChanges s)) \<noteq> time c" by blast
    show ?thesis
    proof (cases "flushTimeout s = 0")
      case True
      show ?thesis
        unfolding fire_def send_now [OF a True n]
        by (simp add: queue_increasing_upto_def)
    next
      case f: False
      have lt: "time p < time c" if p: "p \<in> set (pendingChanges s)" for p
      proof -
        from p have ne: "pendingChanges s \<noteq> []" by auto
        have "time p \<le> last (map time (pendingChanges s))"
          using assms(1) p
          by (intro increasing_below_last) (auto simp: queue_increasing_upto_def)
        then have 1: "time p \<le> time (last (pendingChanges s))"
          using ne by (simp add: last_map)
        have "last (pendingChanges s) \<in> set (pendingChanges s)"
          using ne by simp
        then have "time (last (pendingChanges s)) \<le> t"
          using assms(1) by (simp add: queue_increasing_upto_def)
        then have 2: "time (last (pendingChanges s)) \<le> time c"
          using assms(2) by simp
        from n ne have "time (last (pendingChanges s)) \<noteq> time c" by blast
        with 1 2 show ?thesis by linarith
      qed
      show ?thesis
        unfolding fire_def send_queue [OF a f n]
        using assms(1) lt less_imp_le [OF lt]
        by (auto simp: queue_increasing_upto_def sorted_wrt_append)
    qed
  qed
qed

lemma fold_fire_queue_increasing_upto:
  "queue_increasing_upto s t \<Longrightarrow> t \<le> time c \<Longrightarrow>
   queue_increasing_upto (fold (\<lambda>_. fire c) ks s) (time c)"
proof (induction ks arbitrary: s t)
  case Nil
  then show ?case by (simp add: queue_increasing_upto_mono)
next
  case (Cons k ks)
  from fire_queue_increasing_upto [OF Cons.prems]
  have "queue_increasing_upto (fire c s) (time c)" .
  from Cons.IH [OF this] show ?case by simp
qed

lemma flush_queue_increasing_upto:
  "queue_increasing_upto s t \<Longrightarrow> queue_increasing_upto (flush s) t"
  by (cases "pendingChanges s = []")
     (simp_all add: flush_empty flush_nonempty queue_increasing_upto_def)

lemma onViewportCallback_pendingChanges:
  "pendingChanges (onViewportCallback v c s) =
     (if inViewport s = v then pendingChanges s
      else pendingChanges (fire c (s\<lparr>inViewport := v\<rparr>)))"
proof (cases "inViewport s = v")
  case True
  then show ?thesis by (simp add: onViewportCallback_same)
next
  case False
  show ?thesis
  proof (cases v)
    case True
    with False show ?thesis by (simp add: onViewportCallback_enter)
  next
    case f: False
    with False have i: "inViewport s" by simp
    show ?thesis
      using i f
      by (cases "unlistenViewportChanges s")
         (auto simp: onViewportCallback_leave onViewportCallback_leave_none)
  qed
qed

lemma onViewportCallback_queue_increasing_upto:
  assumes "queue_increasing_upto s t" "t \<le> time c"
  shows "queue_increasing_upto (onViewportCallback v c s) (time c)"
proof (cases "inViewport s = v")
  case True
  then show ?thesis
    using queue_increasing_upto_mono [OF assms] by (simp add: onViewportCallback_same)
next
  case False
  have "queue_increasing_upto (s\<lparr>inViewport := v\<rparr>) t"
    using assms(1) by (simp add: queue_increasing_upto_def)
  from fire_queue_increasing_upto [OF this assms(2)]
  have "queue_increasing_upto (fire c (s\<lparr>inViewport := v\<rparr>)) (time c)" .
  moreover have "pendingChanges (onViewportCallback v c s) =
      pendingChanges (fire c (s\<lparr>inViewport := v\<rparr>))"
    using False by (simp add: onViewportCallback_pendingChanges)
  ultimately show ?thesis by (simp add: queue_increasing_upto_def)
qed

lemma step_queue_increasing_upto:
  assumes "queue_increasing_upto s t" "sorted (map time (carried e))"
    and "\<forall>c\<in>set (carried e). t \<le> time c"
  shows "queue_increasing_upto (step e s) (last (t # map time (carried e)))"
proof (cases e)
  case (Message w og)
  have "pendingChanges (onSendIntersections w og s) = pendingChanges s"
    by (simp add: onSendIntersections_def startSendingIntersectionChanges_def)
  then show ?thesis using assms(1) by (simp add: Message queue_increasing_upto_def)
next
  case (VsyncMeasure v c1 c2)
  from assms(2,3) have le: "t \<le> time c1" "time c1 \<le> time c2" "t \<le> time c2"
    by (simp_all add: VsyncMeasure)
  show ?thesis
  proof (cases "measureQueue s = 0")
    case True
    then show ?thesis
      using queue_increasing_upto_mono [OF assms(1) le(3)] by (simp add: VsyncMeasure)
  next
    case False
    let ?s1 = "s\<lparr>measureQueue := measureQueue s - 1\<rparr>"
    have q1: "queue_increasing_upto ?s1 t"
      using assms(1) by (simp add: queue_increasing_upto_def)
    have "queue_increasing_upto (if v then onViewportCallback True c1 ?s1 else ?s1) (time c1)"
      using onViewportCallback_queue_increasing_upto [OF q1 le(1), of True]
        queue_increasing_upto_mono [OF q1 le(1)]
      by simp
    from fire_queue_increasing_upto [OF this le(2)] False
    show ?thesis by (cases v) (simp_all add: VsyncMeasure measureCallback_def)
  qed
next
  case (ViewportCallback v c)
  from assms(3) have "t \<le> time c" by (simp add: ViewportCallback)
  from onViewportCallback_queue_increasing_upto [OF assms(1) this]
  show ?thesis by (simp add: ViewportCallback)
next
  case (Fire c)
  from assms(3) have "t \<le> time c" by (simp add: Fire)
  from fire_queue_increasing_upto [OF assms(1) this]
  show ?thesis by (simp add: Fire)
next
  case (Scroll c)
  from assms(3) have "t \<le> time c" by (simp add: Scroll)
  from fold_fire_queue_increasing_upto [OF assms(1) this]
  show ?thesis by (simp add: Scroll)
next
  case (Changed c)
  from assms(3) have "t \<le> time c" by (simp add: Changed)
  from fold_fire_queue_increasing_upto [OF assms(1) this]
  show ?thesis by (simp add: Changed)
next
  case (Timeout k)
  have "queue_increasing_upto (s\<lparr>timers := filter (\<lambda>t. fst t \<noteq> k) (timers s)\<rparr>) t"
    using assms(1) by (simp add: queue_increasing_upto_def)
  from flush_queue_increasing_upto [OF this] assms(1)
  show ?thesis by (simp add: Timeout)
next
  case (Tick d)
  then show ?thesis using assms(1) by (simp add: queue_increasing_upto_def)
qed

lemma run_queue_increasing_upto:
  assumes "queue_increasing_upto s t" "sorted (map time (concat (map carried evs)))"
    and "\<forall>c\<in>set (concat (map carried evs)). t \<le> time c"
  shows "\<exists>t'. queue_increasing_upto (run evs s) t'"
  using assms
proof (induction evs arbitrary: s t)
  case Nil
  then show ?case by (auto simp: run_def)
next
  case (Cons e evs)
  let ?t = "last (t # map time (carried e))"
  from Cons.prems(2) have se: "sorted (map time (carried e))"
    and sr: "sorted (map time (concat (map carried evs)))"
    and cross: "\<forall>x\<in>set (carried e). \<forall>y\<in>set (concat (map carried evs)). time x \<le> time y"
    by (auto simp: sorted_append)
  from Cons.prems(3) have be: "\<forall>c\<in>set (carried e). t \<le> time c"
    and br: "\<forall>c\<in>set (concat (map carried evs)). t \<le> time c"
    by auto
  have q: "queue_increasing_upto (step e s) ?t"
    by (rule step_queue_increasing_upto [OF Cons.prems(1) se be])
  have "\<forall>c\<in>set (concat (map carried evs)). ?t \<le> time c"
  proof (cases "carried e = []")
    case True
    then show ?thesis using br by simp
  next
    case False
    then have "?t = time (last (carried e))" by (simp add: last_map)
    moreover have "last (carried e) \<in> set (carried e)" using False by simp
    ultimately show ?thesis using cross by auto
  qed
  from Cons.IH [OF q sr this] show ?case by (simp add: run_def)
qed

text \<open>
  The queue can hold two entries of the same time: only its last entry is compared
  with a new one. Here the times measured are 0, 1, 2 and 1 again, and the queue ends
  up with the times 1, 2, 1.
\<close>

theorem queue_times_distinct_counterexample:
  "\<not> distinct (map time (pendingChanges
       (run [Message 1 ''https://a.test'', Fire (entry_at 0), Fire (entry_at 1),
             Fire (entry_at 2), Fire (other_entry_at 1)] constructor)))"
  by (simp add: run_def constructor_def onSendIntersections_def
        startSendingIntersectionChanges_def fire_def sendElementIntersection_def flush_def
        postMessageToWindows_def timer_delay_def Let_def entry_at_def other_entry_at_def)


text \<open>
  C5, amended. In a run from the constructor in which the times of the entries the
  element returns never decrease, the times of the queued entries are strictly
  increasing, so no two entries in the queue have the same time.
\<close>

theorem queue_times_distinct:
  assumes "sorted (map time (concat (map carried evs)))"
  shows "sorted_wrt (<) (map time (pendingChanges (run evs constructor))) \<and>
         distinct (map time (pendingChanges (run evs constructor)))"
proof -
  let ?cs = "concat (map carried evs)"
  let ?t = "if ?cs = [] then 0 else time (hd ?cs)"
  have q0: "queue_increasing_upto constructor ?t"
    by (rule queue_increasing_upto_empty) (simp add: constructor_def)
  have b: "\<forall>c\<in>set ?cs. ?t \<le> time c"
  proof (cases "?cs = []")
    case True
    then show ?thesis by simp
  next
    case False
    then obtain c cs where cs: "?cs = c # cs" by (cases ?cs) auto
    with assms show ?thesis by auto
  qed
  from run_queue_increasing_upto [OF q0 assms b]
  obtain t' where "queue_increasing_upto (run evs constructor) t'" by blast
  then have s: "sorted_wrt (<) (map time (pendingChanges (run evs constructor)))"
    by (simp add: queue_increasing_upto_def)
  then have "distinct (map time (pendingChanges (run evs constructor)))"
    by (simp add: strict_sorted_iff)
  with s show ?thesis by simp
qed


theorem queue_times_distinct_witness:
  "sorted (map time (concat (map carried
     [Message 1 ''https://a.test'', Fire (entry_at 1), Fire (entry_at 2),
      Fire (other_entry_at 2), Fire (entry_at 3)]))) \<and>
   distinct (map time (pendingChanges
     (run [Message 1 ''https://a.test'', Fire (entry_at 1), Fire (entry_at 2),
           Fire (other_entry_at 2), Fire (entry_at 3)] constructor)))"
  using queue_times_distinct [of "[Message 1 ''https://a.test'', Fire (entry_at 1),
      Fire (entry_at 2), Fire (other_entry_at 2), Fire (entry_at 3)]"]
  by (simp add: entry_at_def other_entry_at_def)

end
